theory Spec2Isabelle
  imports Main "HOL-Library.AList" "HOL-Library.Char_ord" "HOL-Library.List_Lexorder"
begin

section \<open>Memory\<close>

text \<open>
  The Go program works on pointers: \<open>*command\<close>, \<open>*flag.FlagSet\<close> and the \<open>flag.Value\<close>
  objects that flags point to.  Each kind of object lives in a list, and a pointer is an
  index into it; allocation appends.  A \<open>nil\<close> pointer is \<open>None\<close> where the source can
  hold one.  Reading an index beyond the list is answered like a nil dereference.
\<close>

type_synonym addr = nat

definition deref :: "'a list \<Rightarrow> addr \<Rightarrow> 'a option" where
  "deref xs a = (if a < length xs then Some (xs ! a) else None)"

definition NL :: string where
  "NL = [CHR 0x0A]"

definition TAB :: string where
  "TAB = [CHR 0x09]"

definition nilDeref :: string where
  "nilDeref = ''runtime error: invalid memory address or nil pointer dereference''"

section \<open>Package flag of the Go standard library, as far as command.go calls it\<close>

text \<open>
  \<open>Value\<close> is the interface \<open>flag.Value\<close> with the two implementations that the
  repository's programs declare (\<open>FlagSet.String\<close>, \<open>FlagSet.Bool\<close>).
\<close>

datatype Value = stringValue string | boolValue bool

datatype ErrorHandling = ContinueOnError | ExitOnError | PanicOnError

datatype Writer = os_Stderr | strings_Builder

datatype error = ErrHelp | errorString string

record Flag =
  Name :: string
  Usage :: string
  Value :: addr
  DefValue :: string

record FlagSet =
  fs_Usage :: "addr option"
  fs_name :: string
  parsed :: bool
  actual :: "(string \<times> Flag) list"
  formal :: "(string \<times> Flag) list"
  args :: "string list"
  errorHandling :: ErrorHandling
  fs_output :: "Writer option"

text \<open>
  The part of the process state that dispatch changes: the flag sets, the flag values, and
  what has been written to which writer.  \<open>fs_Usage = Some c\<close> is the method value
  \<open>c.usage\<close> of the command at \<open>c\<close>; \<open>None\<close> is \<open>nil\<close>.
\<close>

record state =
  flagSets :: "FlagSet list"
  flagValues :: "Value list"
  written :: "(Writer \<times> string) list"

text \<open>
  How a call ends: it returns, the process exits (\<open>os.Exit\<close>), it panics, or it never
  returns.
\<close>

datatype 'a res = Ok 'a | Exit int state | Panic string state | NoReturn

text \<open>
  What command.go takes from its environment without fixing it: the text that
  \<open>FlagSet.PrintDefaults\<close> writes, the order in which \<open>range\<close> visits a map, and
  \<open>strconv.Quote\<close> (the verb \<open>%q\<close>).
\<close>

record runtime =
  PrintDefaults :: "FlagSet \<Rightarrow> Value list \<Rightarrow> string"
  rangeOrder :: "(string \<times> addr) list \<Rightarrow> (string \<times> addr) list"
  Quote :: "string \<Rightarrow> string"

definition ParseBool :: "string \<Rightarrow> bool option" where
  "ParseBool s =
     (if s \<in> set [''1'', ''t'', ''T'', ''TRUE'', ''true'', ''True''] then Some True
      else if s \<in> set [''0'', ''f'', ''F'', ''FALSE'', ''false'', ''False''] then Some False
      else None)"

fun Value_String :: "Value \<Rightarrow> string" where
  "Value_String (stringValue s) = s"
| "Value_String (boolValue b) = (if b then ''true'' else ''false'')"

fun Value_Set :: "Value \<Rightarrow> string \<Rightarrow> string + Value" where
  "Value_Set (stringValue _) s = Inr (stringValue s)"
| "Value_Set (boolValue _) s =
     (case ParseBool s of None \<Rightarrow> Inl ''parse error'' | Some b \<Rightarrow> Inr (boolValue b))"

fun IsBoolFlag :: "Value \<Rightarrow> bool" where
  "IsBoolFlag (boolValue _) = True"
| "IsBoolFlag (stringValue _) = False"

definition NewFlagSet :: "string \<Rightarrow> ErrorHandling \<Rightarrow> FlagSet" where
  "NewFlagSet nm eh =
     \<lparr>fs_Usage = None, fs_name = nm, parsed = False, actual = [], formal = [], args = [],
      errorHandling = eh, fs_output = None\<rparr>"

definition Output :: "FlagSet \<Rightarrow> Writer" where
  "Output f = (case fs_output f of None \<Rightarrow> os_Stderr | Some w \<Rightarrow> w)"

definition Fprint :: "Writer \<Rightarrow> string \<Rightarrow> state \<Rightarrow> state" where
  "Fprint w s st = st\<lparr>written := written st @ [(w, s)]\<rparr>"

definition putFlagSet :: "addr \<Rightarrow> FlagSet \<Rightarrow> state \<Rightarrow> state" where
  "putFlagSet a f st = st\<lparr>flagSets := (flagSets st)[a := f]\<rparr>"

text \<open>\<open>FlagSet.VisitAll\<close> visits the flags in lexicographical order of their names.\<close>

definition VisitAll :: "FlagSet \<Rightarrow> Flag list" where
  "VisitAll f = map snd (sort_key fst (formal f))"

text \<open>
  \<open>FlagSet.Var\<close>: \<open>f.sprintf\<close> prints the message it formats, so each panic leaves its
  message on the flag set's output as well.
\<close>

definition redefined :: "FlagSet \<Rightarrow> string \<Rightarrow> string" where
  "redefined f nm =
     (if fs_name f = [] then ''flag redefined: '' @ nm
      else fs_name f @ '' flag redefined: '' @ nm)"

definition sprintf_panic :: "FlagSet \<Rightarrow> string \<Rightarrow> state \<Rightarrow> 'a res" where
  "sprintf_panic f msg st = Panic msg (Fprint (Output f) (msg @ NL) st)"

definition Var :: "runtime \<Rightarrow> addr \<Rightarrow> addr \<Rightarrow> string \<Rightarrow> string \<Rightarrow> state \<Rightarrow> state res" where
  "Var rt fa v nm usg st =
     (case deref (flagSets st) fa of
        None \<Rightarrow> Panic nilDeref st
      | Some f \<Rightarrow>
          if take 1 nm = ''-'' then
            sprintf_panic f (''flag '' @ Quote rt nm @ '' begins with -'') st
          else if CHR ''='' \<in> set nm then
            sprintf_panic f (''flag '' @ Quote rt nm @ '' contains ='') st
          else
            (case deref (flagValues st) v of
               None \<Rightarrow> Panic nilDeref st
             | Some val \<Rightarrow>
                 let flag = \<lparr>Name = nm, Usage = usg, Value = v, DefValue = Value_String val\<rparr> in
                 if map_of (formal f) nm \<noteq> None then sprintf_panic f (redefined f nm) st
                 else Ok (putFlagSet fa (f\<lparr>formal := AList.update nm flag (formal f)\<rparr>) st)))"


fun res_bind :: "'a res \<Rightarrow> ('a \<Rightarrow> 'b res) \<Rightarrow> 'b res" where
  "res_bind (Ok x) k = k x"
| "res_bind (Exit n s) k = Exit n s"
| "res_bind (Panic m s) k = Panic m s"
| "res_bind NoReturn k = NoReturn"

section \<open>command.go: the command tree\<close>

text \<open>
  A handler gets the context, the pointer to the resolved flag set and the arguments, as
  in Go, and the memory that pointer points into.  Its result type \<open>'r\<close> is whatever the
  handler yields: the returned error together with any effect it has.
\<close>

type_synonym ('c, 'r) Handler = "'c \<Rightarrow> addr \<Rightarrow> string list \<Rightarrow> state \<Rightarrow> 'r"

type_synonym ('c, 'r) Middleware = "('c, 'r) Handler \<Rightarrow> ('c, 'r) Handler"

record ('c, 'r) command =
  name :: string
  cmd_help :: string
  middlewares :: "('c, 'r) Middleware list"
  handler :: "('c, 'r) Handler option"
  subCommands :: "(string \<times> addr) list"
  flagSet :: addr
  parent :: "addr option"

text \<open>
  The loop of \<open>usage\<close> that follows the parent pointers up to the root (lines 150 to 153).
  A chain of parents that returns to a node it has left never ends; with as many steps as
  there are nodes, running out of steps means exactly that.
\<close>

fun fullCommand ::
  "nat \<Rightarrow> ('c, 'r) command list \<Rightarrow> addr option \<Rightarrow> string list \<Rightarrow> state \<Rightarrow> string list res"
where
  "fullCommand fuel cs None acc st = Ok acc"
| "fullCommand 0 cs (Some a) acc st = NoReturn"
| "fullCommand (Suc fuel) cs (Some a) acc st =
     (case deref cs a of
        None \<Rightarrow> Panic nilDeref st
      | Some cmd \<Rightarrow> fullCommand fuel cs (parent cmd) (name cmd # acc) st)"

fun Join :: "string list \<Rightarrow> string \<Rightarrow> string" where
  "Join [] sep = []"
| "Join [x] sep = x"
| "Join (x # y # xs) sep = x @ sep @ Join (y # xs) sep"

text \<open>The loop over the children at the end of \<open>usage\<close> (lines 195 to 202).\<close>

fun subCommandLines :: "('c, 'r) command list \<Rightarrow> (string \<times> addr) list \<Rightarrow> string option" where
  "subCommandLines cs [] = Some []"
| "subCommandLines cs ((n, a) # rest) =
     (case deref cs a of
        None \<Rightarrow> None
      | Some sub \<Rightarrow>
          (case subCommandLines cs rest of
             None \<Rightarrow> None
           | Some s \<Rightarrow>
               Some (NL @ ''  '' @ n
                     @ (if cmd_help sub \<noteq> [] then NL @ TAB @ cmd_help sub else []) @ s)))"

definition optionsHint :: "nat \<Rightarrow> string" where
  "optionsHint nbFlags = (if nbFlags > 0 then '' [OPTIONS]'' else [])"

definition subCommandHint :: "('c, 'r) command \<Rightarrow> string" where
  "subCommandHint cmd =
     (if length (subCommands cmd) > 0 then
        (case handler cmd of None \<Rightarrow> '' COMMAND'' | Some _ \<Rightarrow> '' [COMMAND]'')
      else [])"

text \<open>
  What \<open>usage\<close> has written to its \<open>strings.Builder\<close> when it ends (lines 173 to 203),
  from the path \<open>fullCommand\<close>, the command, its flag set (whose output is the builder by
  then), the flag values and the lines of the subcommands.
\<close>

definition builderString ::
  "runtime \<Rightarrow> string list \<Rightarrow> ('c, 'r) command \<Rightarrow> FlagSet \<Rightarrow> Value list \<Rightarrow> string \<Rightarrow> string"
where
  "builderString rt full cmd f vs subs =
     (let nbFlags = length (VisitAll f) in
      ''Usage: '' @ Join full '' '' @ optionsHint nbFlags @ subCommandHint cmd @ NL
      @ (if cmd_help cmd \<noteq> [] then NL @ cmd_help cmd @ NL else [])
      @ (if nbFlags > 0 then NL @ ''Options:'' @ NL @ PrintDefaults rt f vs else [])
      @ (if length (subCommands cmd) > 0 then NL @ ''Subcommands:'' @ subs else []))"

definition usage :: "runtime \<Rightarrow> ('c, 'r) command list \<Rightarrow> addr \<Rightarrow> state \<Rightarrow> state res" where
  "usage rt cs c st =
     (case deref cs c of
        None \<Rightarrow> Panic nilDeref st
      | Some cmd \<Rightarrow>
          (case deref (flagSets st) (flagSet cmd) of
             None \<Rightarrow> Panic nilDeref st
           | Some f \<Rightarrow>
               let out = Output f;
                   f' = f\<lparr>fs_output := Some strings_Builder\<rparr>;
                   st1 = putFlagSet (flagSet cmd) f' st
               in res_bind (fullCommand (length cs) cs (parent cmd) [name cmd] st1)
                    (\<lambda>full.
                       (case subCommandLines cs (rangeOrder rt (subCommands cmd)) of
                          None \<Rightarrow> Panic nilDeref st1
                        | Some subs \<Rightarrow>
                            Ok (Fprint out
                                  (builderString rt full cmd f' (flagValues st1) subs @ NL)
                                  st1)))))"

section \<open>Package flag: parsing\<close>

definition defaultUsage :: "runtime \<Rightarrow> FlagSet \<Rightarrow> state \<Rightarrow> state" where
  "defaultUsage rt f st =
     Fprint (Output f) (PrintDefaults rt f (flagValues st))
       (Fprint (Output f)
          (if fs_name f = [] then ''Usage:'' @ NL else ''Usage of '' @ fs_name f @ '':'' @ NL) st)"

definition fs_usage :: "runtime \<Rightarrow> ('c, 'r) command list \<Rightarrow> addr \<Rightarrow> state \<Rightarrow> state res" where
  "fs_usage rt cs fa st =
     (case deref (flagSets st) fa of
        None \<Rightarrow> Panic nilDeref st
      | Some f \<Rightarrow>
          (case fs_Usage f of
             None \<Rightarrow> Ok (defaultUsage rt f st)
           | Some c \<Rightarrow> usage rt cs c st))"

definition failf ::
  "runtime \<Rightarrow> ('c, 'r) command list \<Rightarrow> addr \<Rightarrow> string \<Rightarrow> state \<Rightarrow> (error option \<times> state) res"
where
  "failf rt cs fa msg st =
     (case deref (flagSets st) fa of
        None \<Rightarrow> Panic nilDeref st
      | Some f \<Rightarrow>
          res_bind (fs_usage rt cs fa (Fprint (Output f) (msg @ NL) st))
            (\<lambda>st'. Ok (Some (errorString msg), st')))"

text \<open>
  The scan of \<open>parseOne\<close> for the first \<open>=\<close> from the second character on: the name, whether
  a value is attached, and the value.
\<close>

fun cutEq :: "string \<Rightarrow> string \<times> bool \<times> string" where
  "cutEq [] = ([], False, [])"
| "cutEq (c # cs) =
     (let pre = takeWhile (\<lambda>x. x \<noteq> CHR ''='') cs in
      if length pre < length cs then (c # pre, True, drop (Suc (length pre)) cs)
      else (c # cs, False, []))"

definition setFlag :: "addr \<Rightarrow> string \<Rightarrow> Flag \<Rightarrow> Value \<Rightarrow> FlagSet \<Rightarrow> state \<Rightarrow> state" where
  "setFlag fa nm flag v f st =
     putFlagSet fa (f\<lparr>actual := AList.update nm flag (actual f)\<rparr>)
       (st\<lparr>flagValues := (flagValues st)[Value flag := v]\<rparr>)"

definition parseOne ::
  "runtime \<Rightarrow> ('c, 'r) command list \<Rightarrow> addr \<Rightarrow> state \<Rightarrow> (bool \<times> error option \<times> state) res"
where
  "parseOne rt cs fa st =
     (case deref (flagSets st) fa of
        None \<Rightarrow> Panic nilDeref st
      | Some f \<Rightarrow>
          (case args f of
             [] \<Rightarrow> Ok (False, None, st)
           | s # rest \<Rightarrow>
               if length s < 2 \<or> s ! 0 \<noteq> CHR ''-'' then Ok (False, None, st)
               else if s ! 1 = CHR ''-'' \<and> length s = 2 then
                 Ok (False, None, putFlagSet fa (f\<lparr>args := rest\<rparr>) st)
               else
                 let numMinuses = (if s ! 1 = CHR ''-'' then 2 else 1);
                     name0 = drop numMinuses s
                 in
                 if length name0 = 0 \<or> name0 ! 0 = CHR ''-'' \<or> name0 ! 0 = CHR ''='' then
                   res_bind (failf rt cs fa (''bad flag syntax: '' @ s) st) (\<lambda>r. Ok (False, r))
                 else
                   let f1 = f\<lparr>args := rest\<rparr>;
                       st1 = putFlagSet fa f1 st;
                       (nm, hasValue, val) = cutEq name0
                   in
                   (case map_of (formal f1) nm of
                      None \<Rightarrow>
                        if nm = ''help'' \<or> nm = ''h'' then
                          res_bind (fs_usage rt cs fa st1) (\<lambda>st'. Ok (False, Some ErrHelp, st'))
                        else
                          res_bind
                            (failf rt cs fa (''flag provided but not defined: -'' @ nm) st1)
                            (\<lambda>r. Ok (False, r))
                    | Some flag \<Rightarrow>
                        (case deref (flagValues st1) (Value flag) of
                           None \<Rightarrow> Panic nilDeref st1
                         | Some v \<Rightarrow>
                             if IsBoolFlag v then
                               (if hasValue then
                                  (case Value_Set v val of
                                     Inl err \<Rightarrow>
                                       res_bind
                                         (failf rt cs fa
                                            (''invalid boolean value '' @ Quote rt val @ '' for -''
                                             @ nm @ '': '' @ err) st1)
                                         (\<lambda>r. Ok (False, r))
                                   | Inr v' \<Rightarrow> Ok (True, None, setFlag fa nm flag v' f1 st1))
                                else
                                  (case Value_Set v ''true'' of
                                     Inl err \<Rightarrow>
                                       res_bind
                                         (failf rt cs fa
                                            (''invalid boolean flag '' @ nm @ '': '' @ err) st1)
                                         (\<lambda>r. Ok (False, r))
                                   | Inr v' \<Rightarrow> Ok (True, None, setFlag fa nm flag v' f1 st1)))
                             else
                               let (hasValue2, val2, f2) =
                                     (if \<not> hasValue \<and> length rest > 0
                                      then (True, hd rest, f1\<lparr>args := tl rest\<rparr>)
                                      else (hasValue, val, f1));
                                   st2 = putFlagSet fa f2 st1
                               in
                               if \<not> hasValue2 then
                                 res_bind
                                   (failf rt cs fa (''flag needs an argument: -'' @ nm) st2)
                                   (\<lambda>r. Ok (False, r))
                               else
                                 (case Value_Set v val2 of
                                    Inl err \<Rightarrow>
                                      res_bind
                                        (failf rt cs fa
                                           (''invalid value '' @ Quote rt val2 @ '' for flag -''
                                            @ nm @ '': '' @ err) st2)
                                        (\<lambda>r. Ok (False, r))
                                  | Inr v' \<Rightarrow> Ok (True, None, setFlag fa nm flag v' f2 st2))))))"

definition argsAt :: "addr \<Rightarrow> state \<Rightarrow> string list" where
  "argsAt fa st = (case deref (flagSets st) fa of None \<Rightarrow> [] | Some f \<Rightarrow> args f)"

definition error_Error :: "error \<Rightarrow> string" where
  "error_Error e = (case e of ErrHelp \<Rightarrow> ''flag: help requested'' | errorString s \<Rightarrow> s)"

lemma res_bind_cong [fundef_cong]:
  "m = m' \<Longrightarrow> (\<And>x. m' = Ok x \<Longrightarrow> k x = k' x) \<Longrightarrow> res_bind m k = res_bind m' k'"
  by (cases m') auto

lemma res_bind_False_neq:
  "res_bind m (\<lambda>r. Ok (False, g r)) \<noteq> Ok (True, x)"
  by (cases m) auto

lemma length_deref_update [simp]:
  "deref (xs[a := v]) b = (if b < length xs then Some (if a = b then v else xs ! b) else None)"
  by (auto simp: deref_def)

lemma parseOne_seen_consumes:
  assumes "parseOne rt cs fa st = Ok (True, e, st')"
  shows "length (argsAt fa st') < length (argsAt fa st)"
  using assms
  unfolding parseOne_def Let_def argsAt_def setFlag_def putFlagSet_def
  by (auto split: option.splits list.splits if_splits prod.splits sum.splits
           simp: res_bind_False_neq deref_def)


text \<open>\<open>FlagSet.Parse\<close>: the loop around \<open>parseOne\<close> and the three error policies.\<close>

function Parse_loop ::
  "runtime \<Rightarrow> ('c, 'r) command list \<Rightarrow> addr \<Rightarrow> state \<Rightarrow> (error option \<times> state) res"
where
  "Parse_loop rt cs fa st =
     res_bind (parseOne rt cs fa st)
       (\<lambda>(seen, err, st').
          if seen then Parse_loop rt cs fa st'
          else
            (case err of
               None \<Rightarrow> Ok (None, st')
             | Some e \<Rightarrow>
                 (case deref (flagSets st') fa of
                    None \<Rightarrow> Panic nilDeref st'
                  | Some f \<Rightarrow>
                      (case errorHandling f of
                         ContinueOnError \<Rightarrow> Ok (Some e, st')
                       | ExitOnError \<Rightarrow> if e = ErrHelp then Exit 0 st' else Exit 2 st'
                       | PanicOnError \<Rightarrow> Panic (error_Error e) st'))))"
  by pat_completeness auto
termination
  by (relation "measure (\<lambda>(rt, cs, fa, st). length (argsAt fa st))")
     (auto dest: parseOne_seen_consumes)

definition Parse ::
  "runtime \<Rightarrow> ('c, 'r) command list \<Rightarrow> addr \<Rightarrow> string list \<Rightarrow> state \<Rightarrow> (error option \<times> state) res"
where
  "Parse rt cs fa arguments st =
     (case deref (flagSets st) fa of
        None \<Rightarrow> Panic nilDeref st
      | Some f \<Rightarrow> Parse_loop rt cs fa (putFlagSet fa (f\<lparr>parsed := True, args := arguments\<rparr>) st))"

section \<open>command.go: Execute\<close>

text \<open>
  Lines 106 to 108: every flag of the current command's flag set, in the order of
  \<open>VisitAll\<close>, is registered in the subcommand's flag set with the same \<open>Value\<close> pointer.
\<close>

fun propagate :: "runtime \<Rightarrow> addr \<Rightarrow> Flag list \<Rightarrow> state \<Rightarrow> state res" where
  "propagate rt sub [] st = Ok st"
| "propagate rt sub (f # fs) st =
     res_bind (Var rt sub (Value f) (Name f) (Usage f) st) (propagate rt sub fs)"

text \<open>
  One turn of the loop of \<open>Execute\<close> (lines 91 to 111): the arguments left, the
  subcommand to go on with (\<open>None\<close> for \<open>break\<close>) and the new state.
\<close>

definition loopBody ::
  "runtime \<Rightarrow> ('c, 'r) command list \<Rightarrow> addr \<Rightarrow> string list \<Rightarrow> state
   \<Rightarrow> (string list \<times> addr option \<times> state) res"
where
  "loopBody rt cs command args0 st =
     (case deref cs command of
        None \<Rightarrow> Panic nilDeref st
      | Some cmd \<Rightarrow>
          res_bind (Parse rt cs (flagSet cmd) args0 st)
            (\<lambda>(err, st1).
               if err \<noteq> None then Exit 2 st1
               else
                 (case deref (flagSets st1) (flagSet cmd) of
                    None \<Rightarrow> Panic nilDeref st1
                  | Some f \<Rightarrow>
                      let args1 = args f in
                      if length args1 = 0 then Ok (args1, None, st1)
                      else
                        (case map_of (subCommands cmd) (args1 ! 0) of
                           None \<Rightarrow> Ok (args1, None, st1)
                         | Some sub \<Rightarrow>
                             (case deref cs sub of
                                None \<Rightarrow> Panic nilDeref st1
                              | Some subCommand \<Rightarrow>
                                  res_bind
                                    (propagate rt (flagSet subCommand) (VisitAll f) st1)
                                    (\<lambda>st2. Ok (drop 1 args1, Some sub, st2)))))))"

declare Parse_loop.simps [simp del]

section \<open>What parsing and printing leave alone\<close>

definition sameButOutput :: "state \<Rightarrow> state \<Rightarrow> bool" where
  "sameButOutput st st' \<longleftrightarrow>
     flagValues st' = flagValues st \<and> length (flagSets st') = length (flagSets st) \<and>
     (\<forall>a < length (flagSets st). \<exists>w. flagSets st' ! a = (flagSets st ! a)\<lparr>fs_output := w\<rparr>)"

lemma ex_fs_output [simp]: "\<exists>w. (f::FlagSet) = f\<lparr>fs_output := w\<rparr>"
  by (rule exI[of _ "fs_output f"]) simp

lemma sameButOutput_refl [simp]: "sameButOutput st st"
  unfolding sameButOutput_def by simp

lemma sameButOutput_trans: "sameButOutput a b \<Longrightarrow> sameButOutput b c \<Longrightarrow> sameButOutput a c"
  unfolding sameButOutput_def
  apply clarsimp
  subgoal for x
    apply (drule spec[of _ x], drule spec[of _ x])
    apply auto
    done
  done

lemma sameButOutput_Fprint [simp]:
  "sameButOutput st (Fprint w s st') = sameButOutput st st'"
  "sameButOutput (Fprint w s st) st' = sameButOutput st st'"
  by (simp_all add: sameButOutput_def Fprint_def)

lemma sameButOutput_put:
  "deref (flagSets st) a = Some f \<Longrightarrow> sameButOutput st (putFlagSet a (f\<lparr>fs_output := w\<rparr>) st)"
  unfolding sameButOutput_def putFlagSet_def deref_def
  by (auto simp: nth_list_update split: if_splits)

lemma usage_same: "usage rt cs c st = Ok st' \<Longrightarrow> sameButOutput st st'"
  unfolding usage_def Let_def
  apply (auto split: option.splits  simp: sameButOutput_put)
  subgoal for cmd f
    apply (cases "fullCommand (length cs) cs (parent cmd) [name cmd]
             (putFlagSet (flagSet cmd) (f\<lparr>fs_output := Some strings_Builder\<rparr>) st)")
       apply (auto split: option.splits  simp: sameButOutput_put)
    done
  done

lemma fs_usage_same: "fs_usage rt cs fa st = Ok st' \<Longrightarrow> sameButOutput st st'"
  unfolding fs_usage_def defaultUsage_def
  by (auto split: option.splits dest: usage_same)

lemma failf_same: "failf rt cs fa msg st = Ok (e, st') \<Longrightarrow> sameButOutput st st'"
  unfolding failf_def
  apply (auto split: option.splits)
  subgoal for f
    apply (cases "fs_usage rt cs fa (Fprint (Output f) (msg @ NL) st)")
    apply (auto dest: fs_usage_same)
    done
  done

lemma sameButOutput_argsAt: "sameButOutput st st' \<Longrightarrow> argsAt fa st' = argsAt fa st"
  unfolding sameButOutput_def argsAt_def deref_def
  apply (auto split: option.splits)
  done

lemma res_bind_Ok_iff: "res_bind m k = Ok y \<longleftrightarrow> (\<exists>x. m = Ok x \<and> k x = Ok y)"
  by (cases m) auto

lemma argsAt_put [simp]:
  "argsAt fa (putFlagSet fa f st) = (if fa < length (flagSets st) then args f else [])"
  by (simp add: argsAt_def putFlagSet_def)

lemma failf_argsAt: "failf rt cs fa msg st = Ok (e, st') \<Longrightarrow> argsAt a st' = argsAt a st"
  by (auto dest!: failf_same sameButOutput_argsAt)

lemma fs_usage_argsAt: "fs_usage rt cs fa st = Ok st' \<Longrightarrow> argsAt a st' = argsAt a st"
  by (auto dest!: fs_usage_same sameButOutput_argsAt)

lemma parseOne_unseen_args:
  assumes "parseOne rt cs fa st = Ok (False, e, st')"
  shows "length (argsAt fa st') \<le> length (argsAt fa st)"
  using assms
  unfolding parseOne_def Let_def setFlag_def
  apply (auto split: option.splits list.splits if_splits prod.splits sum.splits
           simp: res_bind_Ok_iff failf_argsAt fs_usage_argsAt)
  apply (auto simp: argsAt_def deref_def)
  done

lemma Parse_loop_args:
  "Parse_loop rt cs fa st = Ok (e, st') \<Longrightarrow> length (argsAt fa st') \<le> length (argsAt fa st)"
proof (induction rt cs fa st rule: Parse_loop.induct)
  case (1 rt cs fa st)
  from "1.prems" obtain seen err st1 where
    p: "parseOne rt cs fa st = Ok (seen, err, st1)"
    and k: "(if seen then Parse_loop rt cs fa st1
          else
            (case err of
               None \<Rightarrow> Ok (None, st1)
             | Some e \<Rightarrow>
                 (case deref (flagSets st1) fa of
                    None \<Rightarrow> Panic nilDeref st1
                  | Some f \<Rightarrow>
                      (case errorHandling f of
                         ContinueOnError \<Rightarrow> Ok (Some e, st1)
                       | ExitOnError \<Rightarrow> if e = ErrHelp then Exit 0 st1 else Exit 2 st1
                       | PanicOnError \<Rightarrow> Panic (error_Error e) st1)))) = Ok (e, st')"
    by (subst (asm) Parse_loop.simps) (auto simp: res_bind_Ok_iff)
  show ?case
  proof (cases seen)
    case True
    with k have "Parse_loop rt cs fa st1 = Ok (e, st')" by simp
    with "1.IH"[OF p refl refl] True have "length (argsAt fa st') \<le> length (argsAt fa st1)" by simp
    moreover from p True have "length (argsAt fa st1) < length (argsAt fa st)"
      by (auto dest: parseOne_seen_consumes)
    ultimately show ?thesis by simp
  next
    case False
    with k have "st' = st1"
      by (auto split: option.splits ErrorHandling.splits if_splits)
    with p False show ?thesis by (auto dest: parseOne_unseen_args)
  qed
qed

lemma Parse_args:
  "Parse rt cs fa arguments st = Ok (e, st') \<Longrightarrow> length (argsAt fa st') \<le> length arguments"
  unfolding Parse_def
  by (auto split: option.splits dest!: Parse_loop_args simp: deref_def split: if_splits)

lemma loopBody_Ok:
  assumes "loopBody rt cs command args0 st = Ok (args1, next, st2)"
  obtains cmd st1 f where
    "deref cs command = Some cmd"
    "Parse rt cs (flagSet cmd) args0 st = Ok (None, st1)"
    "deref (flagSets st1) (flagSet cmd) = Some f"
    "next = None \<Longrightarrow> args1 = args f \<and> st2 = st1 \<and>
       (args f = [] \<or> map_of (subCommands cmd) (args f ! 0) = None)"
    "\<And>sub. next = Some sub \<Longrightarrow> args f \<noteq> [] \<and> args1 = tl (args f) \<and>
       map_of (subCommands cmd) (args f ! 0) = Some sub \<and>
       (\<exists>subCommand. deref cs sub = Some subCommand \<and>
          propagate rt (flagSet subCommand) (VisitAll f) st1 = Ok st2)"
proof -
  from assms obtain cmd where c: "deref cs command = Some cmd"
    by (auto simp: loopBody_def split: option.splits)
  from assms c obtain err st1 where p: "Parse rt cs (flagSet cmd) args0 st = Ok (err, st1)"
    by (auto simp: loopBody_def res_bind_Ok_iff)
  from assms c p have e: "err = None"
    by (auto simp: loopBody_def split: if_splits)
  from assms c p e obtain f where f: "deref (flagSets st1) (flagSet cmd) = Some f"
    by (auto simp: loopBody_def split: option.splits)
  show thesis
  proof (rule that[OF c p[unfolded e] f])
    assume "next = None"
    with assms c p e f
    show "args1 = args f \<and> st2 = st1 \<and>
       (args f = [] \<or> map_of (subCommands cmd) (args f ! 0) = None)"
      by (auto simp: loopBody_def Let_def res_bind_Ok_iff split: option.splits if_splits)
  next
    fix sub assume "next = Some sub"
    with assms c p e f
    show "args f \<noteq> [] \<and> args1 = tl (args f) \<and>
       map_of (subCommands cmd) (args f ! 0) = Some sub \<and>
       (\<exists>subCommand. deref cs sub = Some subCommand \<and>
          propagate rt (flagSet subCommand) (VisitAll f) st1 = Ok st2)"
      by (auto simp: loopBody_def Let_def res_bind_Ok_iff drop_Suc split: option.splits if_splits)
  qed
qed

lemma loopBody_descends:
  assumes "loopBody rt cs command args0 st = Ok (args1, Some sub, st1)"
  shows "length args1 < length args0"
proof (rule loopBody_Ok[OF assms])
  fix cmd st0 f
  assume p: "Parse rt cs (flagSet cmd) args0 st = Ok (None, st0)"
    and f: "deref (flagSets st0) (flagSet cmd) = Some f"
    and s: "\<And>s. Some sub = Some s \<Longrightarrow> args f \<noteq> [] \<and> args1 = tl (args f) \<and>
       map_of (subCommands cmd) (args f ! 0) = Some s \<and>
       (\<exists>subCommand. deref cs s = Some subCommand \<and>
          propagate rt (flagSet subCommand) (VisitAll f) st0 = Ok st1)"
  from s[OF refl] have a: "args f \<noteq> []" "args1 = tl (args f)" by auto
  from Parse_args[OF p] f have "length (args f) \<le> length args0"
    by (simp add: argsAt_def)
  with a show ?thesis by (cases "args f") auto
qed

text \<open>
  The loop of \<open>Execute\<close> (lines 90 to 113).  Each turn that goes on has consumed the
  subcommand's name, so the loop ends.
\<close>

function Execute_loop ::
  "runtime \<Rightarrow> ('c, 'r) command list \<Rightarrow> addr \<Rightarrow> string list \<Rightarrow> ('c, 'r) Middleware list \<Rightarrow> state
   \<Rightarrow> (addr \<times> string list \<times> ('c, 'r) Middleware list \<times> state) res"
where
  "Execute_loop rt cs command args0 mws st =
     res_bind (loopBody rt cs command args0 st)
       (\<lambda>(args1, next, st1).
          (case next of
             None \<Rightarrow> Ok (command, args1, mws, st1)
           | Some sub \<Rightarrow>
               (case deref cs sub of
                  None \<Rightarrow> Panic nilDeref st1
                | Some subCommand \<Rightarrow>
                    Execute_loop rt cs sub args1 (mws @ middlewares subCommand) st1)))"
  by pat_completeness auto
termination
  by (relation "measure (\<lambda>(rt, cs, command, args0, mws, st). length args0)")
     (auto dest: loopBody_descends)

declare Execute_loop.simps [simp del]

text \<open>Lines 127 to 130: the middlewares are applied from the last index down to 0.\<close>

fun wrap :: "('c, 'r) Middleware list \<Rightarrow> nat \<Rightarrow> ('c, 'r) Handler \<Rightarrow> ('c, 'r) Handler" where
  "wrap ms 0 h = h"
| "wrap ms (Suc i) h = wrap ms i ((ms ! i) h)"

definition Execute ::
  "runtime \<Rightarrow> ('c, 'r) command list \<Rightarrow> addr \<Rightarrow> 'c \<Rightarrow> string list \<Rightarrow> state \<Rightarrow> 'r res"
where
  "Execute rt cs c ctx osArgs st =
     (if length osArgs < 1 then Panic ''runtime error: slice bounds out of range [1:0]'' st
      else
        (case deref cs c of
           None \<Rightarrow> Panic nilDeref st
         | Some root \<Rightarrow>
             res_bind (Execute_loop rt cs c (drop 1 osArgs) (middlewares root) st)
               (\<lambda>(command, args1, mws, st1).
                  (case deref cs command of
                     None \<Rightarrow> Panic nilDeref st1
                   | Some cmd \<Rightarrow>
                       (case handler cmd of
                          None \<Rightarrow>
                            if length args1 > 0 then
                              (case deref (flagSets st1) (flagSet cmd) of
                                 None \<Rightarrow> Panic nilDeref st1
                               | Some f \<Rightarrow>
                                   let f' = f\<lparr>fs_output := Some os_Stderr\<rparr>;
                                       st2 = putFlagSet (flagSet cmd) f' st1;
                                       st3 = Fprint (Output f')
                                               (''command provided but not defined: ''
                                                @ args1 ! 0 @ NL) st2
                                   in res_bind (usage rt cs command st3) (\<lambda>st4. Exit 2 st4))
                            else res_bind (usage rt cs command st1) (\<lambda>st2. Exit 0 st2)
                        | Some h \<Rightarrow>
                            Ok (wrap mws (length mws) h ctx (flagSet cmd) args1 st1))))))"

section \<open>command.go: building the tree\<close>

text \<open>
  The commands made so far and the flag memory.  \<open>flag.CommandLine\<close> is the flag set at
  address 0, made when the process starts from the program's name.
\<close>

record ('c, 'r) program =
  commands :: "('c, 'r) command list"
  mem :: state

definition CommandLine :: addr where
  "CommandLine = 0"

definition startup :: "string \<Rightarrow> ('c, 'r) program" where
  "startup progName =
     \<lparr>commands = [],
      mem = \<lparr>flagSets = [NewFlagSet progName ExitOnError], flagValues = [], written = []\<rparr>\<rparr>"

definition Root :: "string list \<Rightarrow> ('c, 'r) program \<Rightarrow> (addr \<times> ('c, 'r) program) res" where
  "Root osArgs p =
     (if length osArgs < 1 then
        Panic ''runtime error: index out of range [0] with length 0'' (mem p)
      else
        (case deref (flagSets (mem p)) CommandLine of
           None \<Rightarrow> Panic nilDeref (mem p)
         | Some f \<Rightarrow>
             let a = length (commands p);
                 command = \<lparr>name = osArgs ! 0, cmd_help = [], middlewares = [], handler = None,
                            subCommands = [], flagSet = CommandLine, parent = None\<rparr>
             in Ok (a, \<lparr>commands = commands p @ [command],
                        mem = putFlagSet CommandLine (f\<lparr>fs_Usage := Some a\<rparr>) (mem p)\<rparr>)))"

definition SubCommand ::
  "addr \<Rightarrow> string \<Rightarrow> ('c, 'r) program \<Rightarrow> (addr \<times> ('c, 'r) program) res"
where
  "SubCommand c nm p =
     (case deref (commands p) c of
        None \<Rightarrow> Panic nilDeref (mem p)
      | Some cmd \<Rightarrow>
          let a = length (commands p);
              fa = length (flagSets (mem p));
              new = \<lparr>name = nm, cmd_help = [], middlewares = [], handler = None,
                     subCommands = [], flagSet = fa, parent = Some c\<rparr>;
              cs1 = (commands p)[c := cmd\<lparr>subCommands := AList.update nm a (subCommands cmd)\<rparr>]
                    @ [new];
              st1 = (mem p)\<lparr>flagSets := flagSets (mem p)
                                @ [(NewFlagSet nm ExitOnError)\<lparr>fs_Usage := Some a\<rparr>]\<rparr>
          in Ok (a, \<lparr>commands = cs1, mem = st1\<rparr>))"

definition Middlewares ::
  "addr \<Rightarrow> ('c, 'r) Middleware list \<Rightarrow> ('c, 'r) program \<Rightarrow> (addr \<times> ('c, 'r) program) res"
where
  "Middlewares c ms p =
     (case deref (commands p) c of
        None \<Rightarrow> Panic nilDeref (mem p)
      | Some cmd \<Rightarrow>
          Ok (c, p\<lparr>commands := (commands p)[c := cmd\<lparr>middlewares := middlewares cmd @ ms\<rparr>]\<rparr>))"

definition Action ::
  "addr \<Rightarrow> ('c, 'r) Handler option \<Rightarrow> ('c, 'r) program \<Rightarrow> (addr \<times> ('c, 'r) program) res"
where
  "Action c h p =
     (case deref (commands p) c of
        None \<Rightarrow> Panic nilDeref (mem p)
      | Some cmd \<Rightarrow> Ok (c, p\<lparr>commands := (commands p)[c := cmd\<lparr>handler := h\<rparr>]\<rparr>))"

definition Help :: "addr \<Rightarrow> string \<Rightarrow> ('c, 'r) program \<Rightarrow> (addr \<times> ('c, 'r) program) res" where
  "Help c text p =
     (case deref (commands p) c of
        None \<Rightarrow> Panic nilDeref (mem p)
      | Some cmd \<Rightarrow> Ok (c, p\<lparr>commands := (commands p)[c := cmd\<lparr>cmd_help := text\<rparr>]\<rparr>))"

definition Flags ::
  "addr \<Rightarrow> (addr \<Rightarrow> state \<Rightarrow> state res) \<Rightarrow> ('c, 'r) program \<Rightarrow> (addr \<times> ('c, 'r) program) res"
where
  "Flags c flags p =
     (case deref (commands p) c of
        None \<Rightarrow> Panic nilDeref (mem p)
      | Some cmd \<Rightarrow> res_bind (flags (flagSet cmd) (mem p)) (\<lambda>st. Ok (c, p\<lparr>mem := st\<rparr>)))"

text \<open>
  \<open>FlagSet.String\<close> and \<open>FlagSet.Bool\<close> allocate the variable and register it with
  \<open>Var\<close>; \<open>FlagSet.Lookup\<close> reads the map of declared flags.
\<close>

definition FlagSet_String :: "runtime \<Rightarrow> string \<Rightarrow> string \<Rightarrow> string \<Rightarrow> addr \<Rightarrow> state \<Rightarrow> state res" where
  "FlagSet_String rt nm val usg fa st =
     Var rt fa (length (flagValues st)) nm usg
       (st\<lparr>flagValues := flagValues st @ [stringValue val]\<rparr>)"

definition FlagSet_Bool :: "runtime \<Rightarrow> string \<Rightarrow> bool \<Rightarrow> string \<Rightarrow> addr \<Rightarrow> state \<Rightarrow> state res" where
  "FlagSet_Bool rt nm val usg fa st =
     Var rt fa (length (flagValues st)) nm usg
       (st\<lparr>flagValues := flagValues st @ [boolValue val]\<rparr>)"

definition FlagSet_Lookup :: "FlagSet \<Rightarrow> string \<Rightarrow> Flag option" where
  "FlagSet_Lookup f nm = map_of (formal f) nm"

text \<open>The value that a flag set shows for a name: the object its flag points to.\<close>

definition currentValue :: "state \<Rightarrow> addr \<Rightarrow> string \<Rightarrow> Value option" where
  "currentValue st fa nm =
     (case deref (flagSets st) fa of
        None \<Rightarrow> None
      | Some f \<Rightarrow>
          (case FlagSet_Lookup f nm of
             None \<Rightarrow> None
           | Some flag \<Rightarrow> deref (flagValues st) (Value flag)))"

section \<open>Resolution and paths, in the words of the specification\<close>

text \<open>
  Resolution in the words of the specification: parse the current node's flag set against
  the arguments; stop when no positional token is left or the first one names no child;
  otherwise propagate the flags into the child and go on there with the rest.  The list
  holds the nodes gone through, from the start to the resolved node.
\<close>

inductive resolves ::
  "runtime \<Rightarrow> ('c, 'r) command list \<Rightarrow> addr \<Rightarrow> string list \<Rightarrow> state
   \<Rightarrow> addr list \<Rightarrow> addr \<Rightarrow> string list \<Rightarrow> state \<Rightarrow> bool"
  for rt :: runtime and cs :: "('c, 'r) command list"
where
  stop_empty:
    "deref cs c = Some cmd \<Longrightarrow> Parse rt cs (flagSet cmd) as st = Ok (None, st1) \<Longrightarrow>
     deref (flagSets st1) (flagSet cmd) = Some f \<Longrightarrow> args f = [] \<Longrightarrow>
     resolves rt cs c as st [c] c [] st1"
| stop_no_child:
    "deref cs c = Some cmd \<Longrightarrow> Parse rt cs (flagSet cmd) as st = Ok (None, st1) \<Longrightarrow>
     deref (flagSets st1) (flagSet cmd) = Some f \<Longrightarrow> args f = t # ts \<Longrightarrow>
     map_of (subCommands cmd) t = None \<Longrightarrow>
     resolves rt cs c as st [c] c (t # ts) st1"
| descend:
    "deref cs c = Some cmd \<Longrightarrow> Parse rt cs (flagSet cmd) as st = Ok (None, st1) \<Longrightarrow>
     deref (flagSets st1) (flagSet cmd) = Some f \<Longrightarrow> args f = t # ts \<Longrightarrow>
     map_of (subCommands cmd) t = Some d \<Longrightarrow> deref cs d = Some sub \<Longrightarrow>
     propagate rt (flagSet sub) (VisitAll f) st1 = Ok st2 \<Longrightarrow>
     resolves rt cs d ts st2 path e as' st' \<Longrightarrow>
     resolves rt cs c as st (c # path) e as' st'"

definition mwsOf :: "('c, 'r) command list \<Rightarrow> addr \<Rightarrow> ('c, 'r) Middleware list" where
  "mwsOf cs a = (case deref cs a of None \<Rightarrow> [] | Some cmd \<Rightarrow> middlewares cmd)"

lemma loopBody_break_empty:
  "deref cs c = Some cmd \<Longrightarrow> Parse rt cs (flagSet cmd) as st = Ok (None, st1) \<Longrightarrow>
   deref (flagSets st1) (flagSet cmd) = Some f \<Longrightarrow> args f = [] \<Longrightarrow>
   loopBody rt cs c as st = Ok ([], None, st1)"
  by (simp add: loopBody_def)

lemma loopBody_break_no_child:
  "deref cs c = Some cmd \<Longrightarrow> Parse rt cs (flagSet cmd) as st = Ok (None, st1) \<Longrightarrow>
   deref (flagSets st1) (flagSet cmd) = Some f \<Longrightarrow> args f = t # ts \<Longrightarrow>
   map_of (subCommands cmd) t = None \<Longrightarrow>
   loopBody rt cs c as st = Ok (t # ts, None, st1)"
  by (simp add: loopBody_def)

lemma loopBody_continue:
  "deref cs c = Some cmd \<Longrightarrow> Parse rt cs (flagSet cmd) as st = Ok (None, st1) \<Longrightarrow>
   deref (flagSets st1) (flagSet cmd) = Some f \<Longrightarrow> args f = t # ts \<Longrightarrow>
   map_of (subCommands cmd) t = Some d \<Longrightarrow> deref cs d = Some sub \<Longrightarrow>
   propagate rt (flagSet sub) (VisitAll f) st1 = Ok st2 \<Longrightarrow>
   loopBody rt cs c as st = Ok (ts, Some d, st2)"
  by (simp add: loopBody_def)

lemma resolves_Execute_loop:
  "resolves rt cs c as st path d as' st' \<Longrightarrow>
   Execute_loop rt cs c as mws st = Ok (d, as', mws @ concat (map (mwsOf cs) (tl path)), st')"
proof (induction arbitrary: mws rule: resolves.induct)
  case (stop_empty c cmd as st st1 f)
  then show ?case
    by (subst Execute_loop.simps) (simp add: loopBody_break_empty)
next
  case (stop_no_child c cmd as st st1 f t ts)
  then show ?case
    by (subst Execute_loop.simps) (simp add: loopBody_break_no_child)
next
  case (descend c cmd as st st1 f t ts d sub st2 path e as' st')
  have hd: "path \<noteq> [] \<and> hd path = d"
    using descend.hyps(8) by (cases rule: resolves.cases) auto
  have l: "loopBody rt cs c as st = Ok (ts, Some d, st2)"
    using descend.hyps by (intro loopBody_continue)
  have "Execute_loop rt cs c as mws st = Execute_loop rt cs d ts (mws @ middlewares sub) st2"
    by (subst Execute_loop.simps) (simp add: l descend.hyps)
  also have "\<dots> = Ok (e, as', (mws @ middlewares sub) @ concat (map (mwsOf cs) (tl path)), st')"
    by (rule descend.IH)
  also have "(mws @ middlewares sub) @ concat (map (mwsOf cs) (tl path))
             = mws @ concat (map (mwsOf cs) (tl (c # path)))"
    using hd descend.hyps(6) by (cases path) (auto simp: mwsOf_def)
  finally show ?case .
qed

lemma Execute_loop_resolves:
  "Execute_loop rt cs c as mws st = Ok (d, as', mws', st') \<Longrightarrow>
   \<exists>path. resolves rt cs c as st path d as' st' \<and> mws' = mws @ concat (map (mwsOf cs) (tl path))"
proof (induction rt cs c as mws st rule: Execute_loop.induct)
  case (1 rt cs command args0 mws st)
  from "1.prems" obtain args1 "next" st1 where
    l: "loopBody rt cs command args0 st = Ok (args1, next, st1)"
    and k: "(case next of
             None \<Rightarrow> Ok (command, args1, mws, st1)
           | Some sub \<Rightarrow>
               (case deref cs sub of
                  None \<Rightarrow> Panic nilDeref st1
                | Some subCommand \<Rightarrow>
                    Execute_loop rt cs sub args1 (mws @ middlewares subCommand) st1)) = Ok (d, as', mws', st')"
    by (subst (asm) Execute_loop.simps) (auto simp: res_bind_Ok_iff)
  show ?case
  proof (rule loopBody_Ok[OF l])
    fix cmd st0 f
    assume c: "deref cs command = Some cmd"
      and p: "Parse rt cs (flagSet cmd) args0 st = Ok (None, st0)"
      and f: "deref (flagSets st0) (flagSet cmd) = Some f"
      and n: "next = None \<Longrightarrow> args1 = args f \<and> st1 = st0 \<and>
         (args f = [] \<or> map_of (subCommands cmd) (args f ! 0) = None)"
      and s: "\<And>sub. next = Some sub \<Longrightarrow> args f \<noteq> [] \<and> args1 = tl (args f) \<and>
         map_of (subCommands cmd) (args f ! 0) = Some sub \<and>
         (\<exists>subCommand. deref cs sub = Some subCommand \<and>
            propagate rt (flagSet subCommand) (VisitAll f) st0 = Ok st1)"
    show ?thesis
    proof (cases "next")
      case None
      with k have eq: "d = command" "as' = args1" "mws' = mws" "st' = st1" by auto
      from n[OF None] have a: "args1 = args f" "st1 = st0"
        "args f = [] \<or> map_of (subCommands cmd) (args f ! 0) = None" by auto
      have "resolves rt cs command args0 st [command] command (args f) st0"
      proof (cases "args f")
        case Nil
        with c p f show ?thesis by (auto intro: resolves.stop_empty)
      next
        case (Cons t ts)
        with a have "map_of (subCommands cmd) t = None" by auto
        with c p f Cons show ?thesis by (auto intro: resolves.stop_no_child)
      qed
      with eq a show ?thesis by (intro exI[of _ "[command]"]) simp
    next
      case (Some sub)
      from s[OF Some] obtain subCommand where
        a: "args f \<noteq> []" "args1 = tl (args f)" "map_of (subCommands cmd) (args f ! 0) = Some sub"
        and sc: "deref cs sub = Some subCommand"
        and pr: "propagate rt (flagSet subCommand) (VisitAll f) st0 = Ok st1"
        by auto
      from k Some sc have
        "Execute_loop rt cs sub args1 (mws @ middlewares subCommand) st1 = Ok (d, as', mws', st')"
        by simp
      from "1.IH"[OF l refl refl Some sc this] obtain path where
        r: "resolves rt cs sub args1 st1 path d as' st'"
        and m: "mws' = (mws @ middlewares subCommand) @ concat (map (mwsOf cs) (tl path))"
        by auto
      from a obtain t ts where ts: "args f = t # ts" by (cases "args f") auto
      with a have "args1 = ts" "map_of (subCommands cmd) t = Some sub" by auto
      with c p f ts sc pr r
      have "resolves rt cs command args0 st (command # path) d as' st'"
        by (auto intro: resolves.descend)
      moreover have "path \<noteq> [] \<and> hd path = sub"
        using r by (cases rule: resolves.cases) auto
      then have "mws' = mws @ concat (map (mwsOf cs) (tl (command # path)))"
        using m sc by (cases path) (auto simp: mwsOf_def)
      ultimately show ?thesis by blast
    qed
  qed
qed

lemma wrap_take:
  "i \<le> length ms \<Longrightarrow> wrap ms i h = foldr (\<lambda>m k. m k) (take i ms) h"
proof (induction i arbitrary: h)
  case 0
  then show ?case by simp
next
  case (Suc i)
  then show ?case by (simp add: take_Suc_conv_app_nth)
qed

lemma wrap_foldr: "wrap ms (length ms) h = foldr (\<lambda>m k. m k) ms h"
  by (simp add: wrap_take)

lemma failf_Some: "failf rt cs fa msg st = Ok (e, st') \<Longrightarrow> e \<noteq> None"
  by (auto simp: failf_def res_bind_Ok_iff split: option.splits)

lemma parseOne_None_written:
  assumes "parseOne rt cs fa st = Ok (seen, None, st')"
  shows "written st' = written st"
  using assms
  unfolding parseOne_def Let_def setFlag_def
  by (auto split: option.splits list.splits if_splits prod.splits sum.splits
           simp: res_bind_Ok_iff putFlagSet_def dest: failf_Some)

lemma parseOne_seen_None:
  "parseOne rt cs fa st = Ok (True, e, st') \<Longrightarrow> e = None"
  unfolding parseOne_def Let_def
  by (auto split: option.splits list.splits if_splits prod.splits sum.splits
           simp: res_bind_Ok_iff)

lemma Parse_loop_Ok_cases:
  assumes "Parse_loop rt cs fa st = Ok (e, st')"
  obtains (again) st1 where "parseOne rt cs fa st = Ok (True, None, st1)"
      "Parse_loop rt cs fa st1 = Ok (e, st')"
  | (stop) "parseOne rt cs fa st = Ok (False, e, st')"
proof -
  from assms obtain seen err st1 where
    p: "parseOne rt cs fa st = Ok (seen, err, st1)"
    and k: "(if seen then Parse_loop rt cs fa st1
          else
            (case err of
               None \<Rightarrow> Ok (None, st1)
             | Some e \<Rightarrow>
                 (case deref (flagSets st1) fa of
                    None \<Rightarrow> Panic nilDeref st1
                  | Some f \<Rightarrow>
                      (case errorHandling f of
                         ContinueOnError \<Rightarrow> Ok (Some e, st1)
                       | ExitOnError \<Rightarrow> if e = ErrHelp then Exit 0 st1 else Exit 2 st1
                       | PanicOnError \<Rightarrow> Panic (error_Error e) st1)))) = Ok (e, st')"
    by (subst (asm) Parse_loop.simps) (auto simp: res_bind_Ok_iff)
  show thesis
  proof (cases seen)
    case True
    with p have "err = None" by (auto dest: parseOne_seen_None)
    with p k True show thesis by (auto intro: again)
  next
    case False
    with k have "st' = st1 \<and> e = err"
      by (auto split: option.splits ErrorHandling.splits if_splits)
    with p False show thesis by (auto intro: stop)
  qed
qed

lemma Parse_loop_written:
  "Parse_loop rt cs fa st = Ok (None, st') \<Longrightarrow> written st' = written st"
proof (induction rt cs fa st rule: Parse_loop.induct)
  case (1 rt cs fa st)
  from "1.prems" show ?case
  proof (cases rule: Parse_loop_Ok_cases)
    case (again st1)
    with "1.IH"[OF again(1) refl refl] show ?thesis
      by (auto dest: parseOne_None_written)
  next
    case stop
    then show ?thesis by (auto dest: parseOne_None_written)
  qed
qed

lemma Parse_written:
  "Parse rt cs fa as st = Ok (None, st') \<Longrightarrow> written st' = written st"
  by (auto simp: Parse_def putFlagSet_def split: option.splits dest!: Parse_loop_written)

lemma Var_written: "Var rt fa v nm usg st = Ok st' \<Longrightarrow> written st' = written st"
  by (auto simp: Var_def putFlagSet_def sprintf_panic_def Let_def split: option.splits if_splits)

lemma propagate_written: "propagate rt sub fs st = Ok st' \<Longrightarrow> written st' = written st"
  by (induction fs arbitrary: st) (auto simp: res_bind_Ok_iff dest!: Var_written)

lemma loopBody_written:
  assumes "loopBody rt cs c as st = Ok (as1, n, st1)"
  shows "written st1 = written st"
proof (rule loopBody_Ok[OF assms])
  fix cmd st0 f
  assume p: "Parse rt cs (flagSet cmd) as st = Ok (None, st0)"
    and n: "n = None \<Longrightarrow> as1 = args f \<and> st1 = st0 \<and>
         (args f = [] \<or> map_of (subCommands cmd) (args f ! 0) = None)"
    and s: "\<And>sub. n = Some sub \<Longrightarrow> args f \<noteq> [] \<and> as1 = tl (args f) \<and>
         map_of (subCommands cmd) (args f ! 0) = Some sub \<and>
         (\<exists>subCommand. deref cs sub = Some subCommand \<and>
            propagate rt (flagSet subCommand) (VisitAll f) st0 = Ok st1)"
  show ?thesis
  proof (cases n)
    case None
    with n p show ?thesis by (auto dest: Parse_written)
  next
    case (Some sub)
    with s p show ?thesis by (auto dest!: Parse_written propagate_written)
  qed
qed

lemma resolves_written:
  "resolves rt cs c as st path d as' st' \<Longrightarrow> written st' = written st"
  by (induction rule: resolves.induct) (auto dest!: Parse_written propagate_written)

lemma resolves_last:
  "resolves rt cs c as st path d as' st' \<Longrightarrow> path \<noteq> [] \<and> hd path = c \<and> last path = d"
  by (induction rule: resolves.induct) auto

lemma Execute_handler:
  assumes "osArgs \<noteq> []" "deref cs root = Some r"
    "Execute_loop rt cs root (drop 1 osArgs) (middlewares r) st = Ok (d, as', ms, st1)"
    "deref cs d = Some cmd" "handler cmd = Some h"
  shows "Execute rt cs root ctx osArgs st = Ok (wrap ms (length ms) h ctx (flagSet cmd) as' st1)"
  using assms by (simp add: Execute_def)

lemma Execute_Ok_loop:
  assumes "Execute rt cs root ctx osArgs st = Ok x"
  obtains r d as' ms st1 cmd h where "osArgs \<noteq> []" "deref cs root = Some r"
    "Execute_loop rt cs root (drop 1 osArgs) (middlewares r) st = Ok (d, as', ms, st1)"
    "deref cs d = Some cmd" "handler cmd = Some h"
    "x = wrap ms (length ms) h ctx (flagSet cmd) as' st1"
proof -
  from assms have a: "osArgs \<noteq> []"
    by (auto simp: Execute_def split: if_splits)
  with assms obtain r where r: "deref cs root = Some r"
    by (auto simp: Execute_def split: option.splits)
  with assms a obtain d as' ms st1 where
    l: "Execute_loop rt cs root (drop 1 osArgs) (middlewares r) st = Ok (d, as', ms, st1)"
    by (auto simp: Execute_def res_bind_Ok_iff)
  with assms a r obtain cmd where c: "deref cs d = Some cmd"
    by (auto simp: Execute_def split: option.splits)
  with assms a r l obtain h where h: "handler cmd = Some h"
    by (cases "handler cmd")
       (auto simp: Execute_def Let_def res_bind_Ok_iff split: option.splits if_splits)
  with assms a r l c have "x = wrap ms (length ms) h ctx (flagSet cmd) as' st1"
    by (simp add: Execute_def)
  with a r l c h show thesis by (rule that)
qed

text \<open>
  The path of a node: the names from the root down to it, along the parent pointers.
\<close>

inductive rootPath :: "('c, 'r) command list \<Rightarrow> addr \<Rightarrow> string list \<Rightarrow> bool"
  for cs :: "('c, 'r) command list"
where
  at_root: "deref cs a = Some cmd \<Longrightarrow> parent cmd = None \<Longrightarrow> rootPath cs a [name cmd]"
| below: "deref cs a = Some cmd \<Longrightarrow> parent cmd = Some p \<Longrightarrow> rootPath cs p ns \<Longrightarrow>
          rootPath cs a (ns @ [name cmd])"

lemma rootPath_det: "rootPath cs a ns \<Longrightarrow> rootPath cs a ms \<Longrightarrow> ns = ms"
proof (induction arbitrary: ms rule: rootPath.induct)
  case (at_root a cmd)
  from at_root.prems show ?case
  proof (cases rule: rootPath.cases)
    case (at_root cmd')
    with at_root.hyps have "cmd' = cmd" by (simp only: option.inject)
    with at_root(1) show ?thesis by (simp only:)
  next
    case (below cmd' p ns')
    with at_root.hyps have "cmd' = cmd" by (simp only: option.inject)
    with below(3) at_root.hyps(2) show ?thesis by (simp only: option.distinct)
  qed
next
  case (below a cmd p ns)
  from below.prems show ?case
  proof (cases rule: rootPath.cases)
    case (at_root cmd')
    with below.hyps have "cmd' = cmd" by (simp only: option.inject)
    with at_root(3) below.hyps(2) show ?thesis by (simp only: option.distinct)
  next
    case (below cmd' p' ns')
    with below.hyps have c: "cmd' = cmd" by (simp only: option.inject)
    with below(3) below.hyps(2) have "p' = p" by (simp only: option.inject)
    with below(4) have "rootPath cs p ns'" by (simp only:)
    then have "ns = ns'" by (rule below.IH)
    with below(1) c show ?thesis by (simp only:)
  qed
qed

lemma rootPath_ancestors:
  "rootPath cs a ns \<Longrightarrow>
   \<exists>as. length as = length ns \<and> distinct as \<and>
        (\<forall>b\<in>set as. b < length cs \<and> (\<exists>ms. rootPath cs b ms \<and> length ms \<le> length ns))"
proof (induction rule: rootPath.induct)
  case (at_root a cmd)
  then have "a < length cs" by (auto simp: deref_def split: if_splits)
  moreover have "rootPath cs a [name cmd]" using at_root by (rule rootPath.at_root)
  ultimately show ?case by (intro exI[of _ "[a]"]) auto
next
  case (below a cmd p ns)
  then obtain as where as: "length as = length ns" "distinct as"
    "\<forall>b\<in>set as. b < length cs \<and> (\<exists>ms. rootPath cs b ms \<and> length ms \<le> length ns)"
    by blast
  have here: "rootPath cs a (ns @ [name cmd])"
    using below.hyps by (rule rootPath.below)
  have "a \<notin> set as"
  proof
    assume "a \<in> set as"
    with as obtain ms where "rootPath cs a ms" "length ms \<le> length ns" by blast
    with here show False by (auto dest: rootPath_det)
  qed
  moreover from below.hyps have "a < length cs" by (auto simp: deref_def split: if_splits)
  ultimately show ?case
    using as here by (intro exI[of _ "a # as"]) (auto intro: le_SucI)
qed

lemma rootPath_length: 
  assumes "rootPath cs a ns"
  shows "length ns \<le> length cs"
proof -
  from rootPath_ancestors[OF assms] obtain as where
    as: "length as = length ns" "distinct as" "\<forall>b\<in>set as. b < length cs"
    by blast
  then have "set as \<subseteq> {..<length cs}" by auto
  then have "card (set as) \<le> card {..<length cs}" by (intro card_mono) auto
  with as show ?thesis by (simp add: distinct_card)
qed

lemma fullCommand_rootPath:
  "rootPath cs a ns \<Longrightarrow> length ns \<le> n \<Longrightarrow> fullCommand n cs (Some a) acc st = Ok (ns @ acc)"
proof (induction arbitrary: n acc rule: rootPath.induct)
  case (at_root a cmd)
  then show ?case by (cases n) auto
next
  case (below a cmd p ns)
  then show ?case by (cases n) auto
qed

lemma fullCommand_usage:
  assumes "deref cs c = Some cmd" "rootPath cs c ns"
  shows "fullCommand (length cs) cs (parent cmd) [name cmd] st = Ok ns"
  using assms(2)
proof (cases rule: rootPath.cases)
  case (at_root cmd')
  with assms show ?thesis by simp
next
  case (below cmd' p ns')
  from rootPath_length[OF assms(2)] below have "length ns' \<le> length cs" by simp
  from fullCommand_rootPath[OF below(4) this] below assms show ?thesis by simp
qed

lemma usage_Ok:
  assumes "deref cs c = Some cmd" "deref (flagSets st) (flagSet cmd) = Some f"
    "rootPath cs c ns" "subCommandLines cs (rangeOrder rt (subCommands cmd)) = Some subs"
  shows "usage rt cs c st =
         Ok (Fprint (Output f)
               (builderString rt ns cmd (f\<lparr>fs_output := Some strings_Builder\<rparr>) (flagValues st) subs @ NL)
               (putFlagSet (flagSet cmd) (f\<lparr>fs_output := Some strings_Builder\<rparr>) st))"
proof -
  let ?st1 = "putFlagSet (flagSet cmd) (f\<lparr>fs_output := Some strings_Builder\<rparr>) st"
  have full: "fullCommand (length cs) cs (parent cmd) [name cmd] ?st1 = Ok ns"
    using assms(1,3) by (rule fullCommand_usage)
  have v: "flagValues ?st1 = flagValues st" by (simp add: putFlagSet_def)
  show ?thesis
    unfolding usage_def Let_def
    by (simp only: assms(1,2,4) full v option.case res_bind.simps)
qed

code_pred (modes: i \<Rightarrow> i \<Rightarrow> i \<Rightarrow> i \<Rightarrow> i \<Rightarrow> i \<Rightarrow> i \<Rightarrow> i \<Rightarrow> i \<Rightarrow> bool) resolves .

lemma fullCommand_Ok_rootPath:
  "fullCommand n cs (Some a) acc st = Ok r \<Longrightarrow> \<exists>ns. rootPath cs a ns \<and> r = ns @ acc"
proof (induction n arbitrary: a acc)
  case 0
  then show ?case by simp
next
  case (Suc n)
  from Suc.prems obtain cmd where c: "deref cs a = Some cmd"
    by (cases "deref cs a") simp_all
  with Suc.prems have f: "fullCommand n cs (parent cmd) (name cmd # acc) st = Ok r" by simp
  show ?case
  proof (cases "parent cmd")
    case None
    with f have "r = [name cmd] @ acc" by simp
    moreover from c None have "rootPath cs a [name cmd]" by (rule rootPath.at_root)
    ultimately show ?thesis by blast
  next
    case (Some p)
    with f have "fullCommand n cs (Some p) (name cmd # acc) st = Ok r" by simp
    from Suc.IH[OF this] obtain ns where ns: "rootPath cs p ns" "r = ns @ name cmd # acc" by blast
    from c Some ns(1) have "rootPath cs a (ns @ [name cmd])" by (rule rootPath.below)
    with ns(2) show ?thesis by (intro exI[of _ "ns @ [name cmd]"]) simp
  qed
qed

lemma rootPath_by_fullCommand:
  "fullCommand n cs (Some a) [] st = Ok ns \<Longrightarrow> rootPath cs a ns"
  by (drule fullCommand_Ok_rootPath) simp

section \<open>The example programs of the repository\<close>

text \<open>
  \<open>strconv.Quote\<close>, the verb \<open>%q\<close>, on ASCII text: the double quote and the backslash
  are escaped, the control characters are written as escape sequences, and the printable
  characters are copied.  A byte from 0x80 on is part of the UTF-8 encoding of a rune; it
  is copied, as Go copies the runes it can print.
\<close>

definition lowerhex :: string where
  "lowerhex = ''0123456789abcdef''"

definition appendEscapedRune :: "char \<Rightarrow> string" where
  "appendEscapedRune c =
     (if c = CHR 0x22 \<or> c = CHR 0x5C then [CHR 0x5C, c]
      else if (0x20::nat) \<le> of_char c \<and> of_char c \<noteq> (0x7F::nat) then [c]
      else if c = CHR 0x07 then [CHR 0x5C, CHR ''a'']
      else if c = CHR 0x08 then [CHR 0x5C, CHR ''b'']
      else if c = CHR 0x0C then [CHR 0x5C, CHR ''f'']
      else if c = CHR 0x0A then [CHR 0x5C, CHR ''n'']
      else if c = CHR 0x0D then [CHR 0x5C, CHR ''r'']
      else if c = CHR 0x09 then [CHR 0x5C, CHR ''t'']
      else if c = CHR 0x0B then [CHR 0x5C, CHR ''v'']
      else [CHR 0x5C, CHR ''x'', lowerhex ! (of_char c div 16), lowerhex ! (of_char c mod 16)])"

definition strconv_Quote :: "string \<Rightarrow> string" where
  "strconv_Quote s = [CHR 0x22] @ concat (map appendEscapedRune s) @ [CHR 0x22]"

text \<open>
  \<open>flag.UnquoteUsage\<close>: a name between the first two back quotes of the usage text, which
  then loses the quotes; without one, the name of the value's type, empty for a boolean
  flag.
\<close>

definition UnquoteUsage :: "Flag \<Rightarrow> Value \<Rightarrow> string \<times> string" where
  "UnquoteUsage flag v =
     (let usage = Usage flag;
          i = length (takeWhile (\<lambda>c. c \<noteq> CHR 0x60) usage);
          rest = drop (Suc i) usage;
          j = length (takeWhile (\<lambda>c. c \<noteq> CHR 0x60) rest)
      in if i < length usage \<and> j < length rest then
           (take j rest, take i usage @ take j rest @ drop (Suc j) rest)
         else ((case v of boolValue _ \<Rightarrow> [] | stringValue _ \<Rightarrow> ''string''), usage))"

text \<open>
  \<open>flag.isZeroValue\<close>: whether a text is what the zero value of the flag's type prints.
\<close>

definition isZeroValue :: "Value \<Rightarrow> string \<Rightarrow> bool" where
  "isZeroValue v val \<longleftrightarrow>
     val = Value_String (case v of stringValue _ \<Rightarrow> stringValue [] | boolValue _ \<Rightarrow> boolValue False)"

text \<open>
  \<open>FlagSet.PrintDefaults\<close>: for each flag in the order of \<open>VisitAll\<close>, two spaces, the
  minus sign and the name, the name of the type, the usage text on a line of its own (on
  the same line for a boolean flag of one letter) and the default value unless it is the
  zero value of the type, quoted for a string flag.  The function within is what it writes
  for one flag.  A flag always has a value in Go; one whose value is not in the memory here
  writes nothing.
\<close>

definition printDefault :: "Flag \<Rightarrow> Value \<Rightarrow> string" where
  "printDefault flag v =
     (let (nm, usage) = UnquoteUsage flag v;
          b = ''  -'' @ Name flag @ (if length nm > 0 then '' '' @ nm else []);
          b = b @ (if length b \<le> 4 then TAB else NL @ ''    '' @ TAB);
          b = b @ concat (map (\<lambda>c. if c = CHR 0x0A then NL @ ''    '' @ TAB else [c]) usage);
          b = b @ (if isZeroValue v (DefValue flag) then []
                   else
                     (case v of
                        stringValue _ \<Rightarrow> '' (default '' @ strconv_Quote (DefValue flag) @ '')''
                      | boolValue _ \<Rightarrow> '' (default '' @ DefValue flag @ '')''))
      in b @ NL)"

definition FlagSet_PrintDefaults :: "FlagSet \<Rightarrow> Value list \<Rightarrow> string" where
  "FlagSet_PrintDefaults f vs =
     concat (map (\<lambda>flag. case deref vs (Value flag) of
                           None \<Rightarrow> []
                         | Some v \<Rightarrow> printDefault flag v)
               (VisitAll f))"

text \<open>
  The runtime of the examples: \<open>PrintDefaults\<close> and \<open>Quote\<close> as above, and \<open>range\<close> in the
  order of insertion, one of the orders that Go may take.  Wherever a usage text is written
  out below, its node has at most one subcommand, so that every order gives that text.
\<close>

definition exampleRuntime :: runtime where
  "exampleRuntime =
     \<lparr>PrintDefaults = FlagSet_PrintDefaults,
      rangeOrder = (\<lambda>m. m),
      Quote = strconv_Quote\<rparr>"

text \<open>
  Modelled from the spec: the generic function \<open>Lookup\<close> of this package is not among the
  sources; it "returns the current typed value or a zero value if undeclared".
\<close>

definition Lookup_string :: "state \<Rightarrow> addr \<Rightarrow> string \<Rightarrow> string" where
  "Lookup_string st fa nm =
     (case currentValue st fa nm of Some (stringValue s) \<Rightarrow> s | _ \<Rightarrow> [])"

definition Lookup_bool :: "state \<Rightarrow> addr \<Rightarrow> string \<Rightarrow> bool" where
  "Lookup_bool st fa nm =
     (case currentValue st fa nm of Some (boolValue b) \<Rightarrow> b | _ \<Rightarrow> False)"

text \<open>The program a sequence of builder calls has made; the empty one if a call failed.\<close>

definition built :: "(addr \<times> ('c, 'r) program) res \<Rightarrow> ('c, 'r) program" where
  "built r = (case r of Ok (_, p) \<Rightarrow> p | _ \<Rightarrow> startup [])"

text \<open>
  examples/echo/main.go.  A handler's result is what it prints and the error it returns.
  \<open>strings.ToUpper\<close> and \<open>strings.ToLower\<close> are given for ASCII letters.
\<close>

definition ToUpper :: "string \<Rightarrow> string" where
  "ToUpper s = map (\<lambda>c. if CHR ''a'' \<le> c \<and> c \<le> CHR ''z'' then char_of (of_char c - (32::nat)) else c) s"

definition ToLower :: "string \<Rightarrow> string" where
  "ToLower s = map (\<lambda>c. if CHR ''A'' \<le> c \<and> c \<le> CHR ''Z'' then char_of (of_char c + (32::nat)) else c) s"

definition EchoHandler :: "(unit, string list \<times> string option) Handler" where
  "EchoHandler ctx fs as st =
     (let verbose = Lookup_bool st fs ''verbose'';
          textCase = Lookup_string st fs ''case''
      in ((if verbose then [''command echo called with case: '' @ textCase] else [])
          @ [if textCase = ''upper'' then ToUpper (Join as '' '')
             else if textCase = ''lower'' then ToLower (Join as '' '')
             else Join as '' ''],
          None))"

definition echoMain :: "string list \<Rightarrow> (addr \<times> (unit, string list \<times> string option) program) res" where
  "echoMain osArgs =
     res_bind (Root osArgs (startup (hd osArgs))) (\<lambda>(root, p).
     res_bind (Flags root (FlagSet_Bool exampleRuntime ''verbose'' False ''Enable verbose output'') p) (\<lambda>(_, p).
     res_bind (Help root ''Example command'' p) (\<lambda>(_, p).
     res_bind (SubCommand root ''echo'' p) (\<lambda>(echo, p).
     res_bind (Action echo (Some EchoHandler) p) (\<lambda>(_, p).
     res_bind (Flags echo (FlagSet_String exampleRuntime ''case'' [] ''Case to use (upper, lower)'') p) (\<lambda>(_, p).
     Ok (root, p)))))))"

definition echoTree :: "(unit, string list \<times> string option) program" where
  "echoTree = built (echoMain [''echo''])"

text \<open>The state in which the first scenario of the specification reaches its handler.\<close>

definition echoResolved :: state where
  "echoResolved =
     (case Execute_loop exampleRuntime (commands echoTree) 0
             [''echo'', ''--case=upper'', ''hello'', ''world''] [] (mem echoTree) of
        Ok (_, _, _, s) \<Rightarrow> s
      | _ \<Rightarrow> mem echoTree)"

lemma resolves_start:
  "resolves rt cs c as st path d as' st' \<Longrightarrow> \<exists>r. deref cs c = Some r"
  by (induction rule: resolves.induct) (simp_all only: option.inject exI)

lemma resolves_Execute:
  assumes "osArgs \<noteq> []"
    and r: "resolves rt cs root (drop 1 osArgs) st path d as' st'"
    and "deref cs d = Some cmd" and "handler cmd = Some h"
  shows "Execute rt cs root ctx osArgs st =
         Ok (wrap (concat (map (mwsOf cs) path)) (length (concat (map (mwsOf cs) path)))
               h ctx (flagSet cmd) as' st')"
proof -
  from resolves_start[OF r] obtain rc where rc: "deref cs root = Some rc" by blast
  from resolves_last[OF r] have p: "path \<noteq> []" "hd path = root" by simp_all
  then have m: "concat (map (mwsOf cs) path) = middlewares rc @ concat (map (mwsOf cs) (tl path))"
    using rc by (cases path) (simp_all add: mwsOf_def)
  from resolves_Execute_loop[OF r, of "middlewares rc"]
  have "Execute_loop rt cs root (drop 1 osArgs) (middlewares rc) st
        = Ok (d, as', concat (map (mwsOf cs) path), st')"
    by (simp only: m)
  from Execute_handler[OF assms(1) rc this assms(3,4)] show ?thesis .
qed

text \<open>
  C1.  Whatever node the walk of the specification reaches from the root on the process
  arguments (parse the node's flag set, stop on an empty remainder or on a first token that
  names no child, otherwise descend), \<open>Execute\<close> invokes the handler of that node, wrapped
  in the middlewares of the path, with exactly the arguments the walk has left.
\<close>

theorem Execute_invokes_resolved_handler:
  assumes "osArgs \<noteq> []"
    and "resolves rt cs root (drop 1 osArgs) st path d as' st'"
    and "deref cs d = Some cmd" and "handler cmd = Some h"
  shows "Execute rt cs root ctx osArgs st =
         Ok (wrap (concat (map (mwsOf cs) path)) (length (concat (map (mwsOf cs) path)))
               h ctx (flagSet cmd) as' st')"
  using assms by (rule resolves_Execute)

theorem Execute_invokes_resolved_handler_witness:
  "[''echo'', ''echo'', ''--case=upper'', ''hello'', ''world''] \<noteq> []
   \<and> resolves exampleRuntime (commands echoTree) 0
        (drop 1 [''echo'', ''echo'', ''--case=upper'', ''hello'', ''world''])
        (mem echoTree) [0, 1] 1 [''hello'', ''world''] echoResolved
   \<and> deref (commands echoTree) 1 = Some (commands echoTree ! 1)
   \<and> handler (commands echoTree ! 1) = Some (the (handler (commands echoTree ! 1)))
   \<and> Execute exampleRuntime (commands echoTree) 0 ()
        [''echo'', ''echo'', ''--case=upper'', ''hello'', ''world''] (mem echoTree)
      = Ok ([''HELLO WORLD''], None)"
proof -
  have a: "[''echo'', ''echo'', ''--case=upper'', ''hello'', ''world''] \<noteq> []" by simp
  have r: "resolves exampleRuntime (commands echoTree) 0
        (drop 1 [''echo'', ''echo'', ''--case=upper'', ''hello'', ''world''])
        (mem echoTree) [0, 1] 1 [''hello'', ''world''] echoResolved"
    by code_simp
  have l: "1 < length (commands echoTree)" by code_simp
  then have c: "deref (commands echoTree) 1 = Some (commands echoTree ! 1)"
    by (simp add: deref_def)
  have "handler (commands echoTree ! 1) \<noteq> None" by code_simp
  then have h: "handler (commands echoTree ! 1) = Some (the (handler (commands echoTree ! 1)))"
    by simp
  have v: "wrap (concat (map (mwsOf (commands echoTree)) [0, 1]))
             (length (concat (map (mwsOf (commands echoTree)) [0, 1])))
             (the (handler (commands echoTree ! 1))) () (flagSet (commands echoTree ! 1))
             [''hello'', ''world''] echoResolved
           = ([''HELLO WORLD''], None)"
    by code_simp
  from Execute_invokes_resolved_handler[OF a r c h, of "()"] v a r c h
  show ?thesis by (simp only: simp_thms)
qed

text \<open>The state in which the walk from a root on given arguments comes to rest.\<close>

definition resolvedState ::
  "runtime \<Rightarrow> ('c, 'r) command list \<Rightarrow> addr \<Rightarrow> string list \<Rightarrow> state \<Rightarrow> state" where
  "resolvedState rt cs root as st =
     (case Execute_loop rt cs root as [] st of Ok (_, _, _, s) \<Rightarrow> s | _ \<Rightarrow> st)"

text \<open>
  The third testable property of the specification: a root with middleware A, a
  subcommand with middleware B.  A handler's result is what it does to the list of events
  so far; each middleware records its tag before and after it calls through.
\<close>

definition tracing :: "string \<Rightarrow> (unit, string list \<Rightarrow> string list) Middleware" where
  "tracing tag next ctx fs as st =
     (\<lambda>events. next ctx fs as st (events @ [tag @ '' before'']) @ [tag @ '' after''])"

definition tracedHandler :: "(unit, string list \<Rightarrow> string list) Handler" where
  "tracedHandler ctx fs as st = (\<lambda>events. events @ [''handler''])"

definition tracedMain ::
  "string list \<Rightarrow> (addr \<times> (unit, string list \<Rightarrow> string list) program) res" where
  "tracedMain osArgs =
     res_bind (Root osArgs (startup (hd osArgs))) (\<lambda>(root, p).
     res_bind (Middlewares root [tracing ''A''] p) (\<lambda>(_, p).
     res_bind (SubCommand root ''leaf'' p) (\<lambda>(leaf, p).
     res_bind (Middlewares leaf [tracing ''B''] p) (\<lambda>(_, p).
     res_bind (Action leaf (Some tracedHandler) p) (\<lambda>(_, p).
     Ok (root, p))))))"

definition tracedTree :: "(unit, string list \<Rightarrow> string list) program" where
  "tracedTree = built (tracedMain [''traced''])"

text \<open>
  examples/github: \<open>repos\<close> is a router without handler, \<open>list\<close> has the handler of
  handlers/repos-list.go.  The call to GitHub is a parameter: the names of the repositories
  of a user, or the text of an error.
\<close>

definition ReposListHandler ::
  "(string \<Rightarrow> string list + string) \<Rightarrow> (unit, string list \<times> string option) Handler" where
  "ReposListHandler ghList ctx fs as st =
     (let user = Lookup_string st fs ''user'' in
      if user = [] then ([], Some ''missing required flag: user'')
      else
        (case ghList user of
           Inr err \<Rightarrow> ([], Some (''failed to list repositories: '' @ err))
         | Inl repos \<Rightarrow>
             ((''Repositories of '' @ user @ '':'') # map (\<lambda>r. ''- '' @ r) repos, None)))"

definition githubMain ::
  "(string \<Rightarrow> string list + string) \<Rightarrow> string list
   \<Rightarrow> (addr \<times> (unit, string list \<times> string option) program) res" where
  "githubMain ghList osArgs =
     res_bind (Root osArgs (startup (hd osArgs))) (\<lambda>(root, p).
     res_bind (Flags root (FlagSet_Bool exampleRuntime ''verbose'' False ''Enable verbose output'') p) (\<lambda>(_, p).
     res_bind (Help root ''Example command'' p) (\<lambda>(_, p).
     res_bind (SubCommand root ''repos'' p) (\<lambda>(reposCommand, p).
     res_bind (Help reposCommand ''Manage GitHub repositories'' p) (\<lambda>(_, p).
     res_bind (SubCommand reposCommand ''list'' p) (\<lambda>(list, p).
     res_bind (Action list (Some (ReposListHandler ghList)) p) (\<lambda>(_, p).
     res_bind (Flags list (FlagSet_String exampleRuntime ''user'' [] ''GitHub user'') p) (\<lambda>(_, p).
     res_bind (Help list ''List repositories of a GitHub user'' p) (\<lambda>(_, p).
     Ok (root, p))))))))))"

definition githubTree :: "(unit, string list \<times> string option) program" where
  "githubTree = built (githubMain (\<lambda>user. Inl [user @ ''-repo'']) [''github''])"

definition exitStatus :: "'a res \<Rightarrow> int option" where
  "exitStatus r = (case r of Exit n _ \<Rightarrow> Some n | _ \<Rightarrow> None)"

definition writtenAtExit :: "'a res \<Rightarrow> (Writer \<times> string) list" where
  "writtenAtExit r = (case r of Exit _ st \<Rightarrow> written st | _ \<Rightarrow> [])"

text \<open>The usage text in the words of the specification.\<close>

definition usageLine :: "string list \<Rightarrow> bool \<Rightarrow> bool \<Rightarrow> bool \<Rightarrow> string" where
  "usageLine path hasFlags hasChildren hasHandler =
     ''Usage: '' @ Join path '' ''
     @ (if hasFlags then '' [OPTIONS]'' else [])
     @ (if hasChildren then (if hasHandler then '' [COMMAND]'' else '' COMMAND'') else [])"

definition childLine :: "('c, 'r) command list \<Rightarrow> string \<times> addr \<Rightarrow> string" where
  "childLine cs = (\<lambda>(n, a).
     NL @ ''  '' @ n
     @ (case deref cs a of
          None \<Rightarrow> []
        | Some sub \<Rightarrow> if cmd_help sub = [] then [] else NL @ TAB @ cmd_help sub))"

definition rendered ::
  "runtime \<Rightarrow> ('c, 'r) command list \<Rightarrow> string list \<Rightarrow> ('c, 'r) command \<Rightarrow> FlagSet \<Rightarrow> Value list
   \<Rightarrow> string" where
  "rendered rt cs path cmd f vs =
     usageLine path (formal f \<noteq> []) (subCommands cmd \<noteq> []) (handler cmd \<noteq> None) @ NL
     @ (if cmd_help cmd = [] then [] else NL @ cmd_help cmd @ NL)
     @ (if formal f = [] then [] else NL @ ''Options:'' @ NL @ PrintDefaults rt f vs)
     @ (if subCommands cmd = [] then []
        else NL @ ''Subcommands:'' @ concat (map (childLine cs) (rangeOrder rt (subCommands cmd))))"

lemma subCommandLines_childLine:
  "\<forall>(n, a)\<in>set xs. a < length cs \<Longrightarrow>
   subCommandLines cs xs = Some (concat (map (childLine cs) xs))"
proof (induction xs)
  case Nil
  then show ?case by simp
next
  case (Cons x xs)
  obtain n a where x: "x = (n, a)" by (cases x)
  with Cons.prems have a: "a < length cs" by simp
  then have d: "deref cs a = Some (cs ! a)" by (simp add: deref_def)
  from Cons have "subCommandLines cs xs = Some (concat (map (childLine cs) xs))" by simp
  with x d show ?case by (simp add: childLine_def)
qed

lemma length_VisitAll [simp]: "length (VisitAll f) = length (formal f)"
  by (simp add: VisitAll_def)

lemma builderString_rendered:
  "builderString rt path cmd f vs (concat (map (childLine cs) (rangeOrder rt (subCommands cmd))))
   = rendered rt cs path cmd f vs"
  by (cases "handler cmd")
     (simp_all add: builderString_def rendered_def usageLine_def optionsHint_def
        subCommandHint_def Let_def)

lemma usage_rendered:
  assumes "deref cs c = Some cmd" and "deref (flagSets st) (flagSet cmd) = Some f"
    and "rootPath cs c path"
    and "\<forall>(n, a)\<in>set (rangeOrder rt (subCommands cmd)). a < length cs"
  shows "usage rt cs c st =
         Ok (Fprint (Output f)
               (rendered rt cs path cmd (f\<lparr>fs_output := Some strings_Builder\<rparr>) (flagValues st) @ NL)
               (putFlagSet (flagSet cmd) (f\<lparr>fs_output := Some strings_Builder\<rparr>) st))"
proof -
  from subCommandLines_childLine[OF assms(4)]
  have s: "subCommandLines cs (rangeOrder rt (subCommands cmd))
           = Some (concat (map (childLine cs) (rangeOrder rt (subCommands cmd))))" .
  from usage_Ok[OF assms(1,2,3) s] show ?thesis
    by (simp only: builderString_rendered)
qed

lemma foldr_path:
  assumes "resolves rt cs c as st path d as' st'" and "deref cs d = Some cmd"
  shows "foldr (\<lambda>m k. m k) (concat (map (mwsOf cs) path)) h
         = foldr (\<lambda>m k. m k) (concat (map (mwsOf cs) (butlast path)))
             (foldr (\<lambda>m k. m k) (middlewares cmd) h)"
proof -
  from resolves_last[OF assms(1)] have "path = butlast path @ [d]"
    by (metis append_butlast_last_id)
  then have "concat (map (mwsOf cs) path)
             = concat (map (mwsOf cs) (butlast path)) @ mwsOf cs d"
    by (metis concat.simps(1,2) concat_append list.simps(8,9) map_append append_Nil2)
  moreover have "mwsOf cs d = middlewares cmd" using assms(2) by (simp add: mwsOf_def)
  ultimately show ?thesis by (simp only: foldr_append)
qed

text \<open>
  C3.  The handler that \<open>Execute\<close> invokes is the resolved node's handler wrapped first in
  that node's own middlewares and then in those of its ancestors, each list with its first
  element outermost and the root's list outermost of all: the root's first middleware is
  entered first and left last.
\<close>

theorem middlewares_wrap_root_outermost:
  assumes "osArgs \<noteq> []"
    and "resolves rt cs root (drop 1 osArgs) st path d as' st'"
    and "deref cs d = Some cmd" and "handler cmd = Some h"
  shows "Execute rt cs root ctx osArgs st =
         Ok (foldr (\<lambda>m k. m k) (concat (map (mwsOf cs) (butlast path)))
               (foldr (\<lambda>m k. m k) (middlewares cmd) h) ctx (flagSet cmd) as' st')"
  using resolves_Execute[OF assms, of ctx]
  by (simp only: wrap_foldr foldr_path[OF assms(2,3)])

theorem middlewares_wrap_root_outermost_witness:
  "[''traced'', ''leaf''] \<noteq> []
   \<and> resolves exampleRuntime (commands tracedTree) 0 (drop 1 [''traced'', ''leaf''])
        (mem tracedTree) [0, 1] 1 []
        (resolvedState exampleRuntime (commands tracedTree) 0 [''leaf''] (mem tracedTree))
   \<and> deref (commands tracedTree) 1 = Some (commands tracedTree ! 1)
   \<and> handler (commands tracedTree ! 1) = Some (the (handler (commands tracedTree ! 1)))
   \<and> (case Execute exampleRuntime (commands tracedTree) 0 () [''traced'', ''leaf'']
              (mem tracedTree) of
         Ok run \<Rightarrow> run [] = [''A before'', ''B before'', ''handler'', ''B after'', ''A after'']
       | _ \<Rightarrow> False)"
proof -
  have a: "[''traced'', ''leaf''] \<noteq> []" by simp
  have r: "resolves exampleRuntime (commands tracedTree) 0 (drop 1 [''traced'', ''leaf''])
        (mem tracedTree) [0, 1] 1 []
        (resolvedState exampleRuntime (commands tracedTree) 0 [''leaf''] (mem tracedTree))"
    by code_simp
  have "1 < length (commands tracedTree)" by code_simp
  then have c: "deref (commands tracedTree) 1 = Some (commands tracedTree ! 1)"
    by (simp add: deref_def)
  have "handler (commands tracedTree ! 1) \<noteq> None" by code_simp
  then have h: "handler (commands tracedTree ! 1) = Some (the (handler (commands tracedTree ! 1)))"
    by simp
  have v: "foldr (\<lambda>m k. m k) (concat (map (mwsOf (commands tracedTree)) (butlast [0, 1])))
             (foldr (\<lambda>m k. m k) (middlewares (commands tracedTree ! 1))
                (the (handler (commands tracedTree ! 1))))
             () (flagSet (commands tracedTree ! 1)) []
             (resolvedState exampleRuntime (commands tracedTree) 0 [''leaf''] (mem tracedTree)) []
           = [''A before'', ''B before'', ''handler'', ''B after'', ''A after'']"
    by code_simp
  from middlewares_wrap_root_outermost[OF a r c h, of "()"] v a r c h
  show ?thesis by (simp only: simp_thms res.case)
qed

lemma Execute_Ok_resolves:
  assumes "Execute rt cs root ctx osArgs st = Ok x"
  shows "\<exists>path d as' st' cmd h.
           resolves rt cs root (drop 1 osArgs) st path d as' st' \<and>
           deref cs d = Some cmd \<and> handler cmd = Some h \<and>
           x = wrap (concat (map (mwsOf cs) path)) (length (concat (map (mwsOf cs) path)))
                 h ctx (flagSet cmd) as' st' \<and>
           written st' = written st"
proof (rule Execute_Ok_loop[OF assms])
  fix r d as' ms st1 cmd h
  assume a: "osArgs \<noteq> []" and r: "deref cs root = Some r"
    and l: "Execute_loop rt cs root (drop 1 osArgs) (middlewares r) st = Ok (d, as', ms, st1)"
    and c: "deref cs d = Some cmd" and h: "handler cmd = Some h"
    and x: "x = wrap ms (length ms) h ctx (flagSet cmd) as' st1"
  from Execute_loop_resolves[OF l] obtain path where
    p: "resolves rt cs root (drop 1 osArgs) st path d as' st1"
    and m: "ms = middlewares r @ concat (map (mwsOf cs) (tl path))"
    by blast
  from resolves_last[OF p] have "path \<noteq> []" "hd path = root" by simp_all
  then have "concat (map (mwsOf cs) path) = middlewares r @ concat (map (mwsOf cs) (tl path))"
    using r by (cases path) (simp_all add: mwsOf_def)
  with m have ms: "ms = concat (map (mwsOf cs) path)" by simp
  from resolves_written[OF p] have w: "written st1 = written st" .
  from p c h x ms w show ?thesis by blast
qed

text \<open>
  C6.  A value that \<open>Execute\<close> returns to its caller is the value that the composed handler
  of the resolved node has returned, as it is; and up to the call of that handler the engine
  has written nothing.
\<close>

theorem Execute_returns_what_handler_returns:
  assumes "Execute rt cs root ctx osArgs st = Ok x"
  shows "\<exists>path d as' st' cmd h.
           resolves rt cs root (drop 1 osArgs) st path d as' st' \<and>
           deref cs d = Some cmd \<and> handler cmd = Some h \<and>
           x = wrap (concat (map (mwsOf cs) path)) (length (concat (map (mwsOf cs) path)))
                 h ctx (flagSet cmd) as' st' \<and>
           written st' = written st"
  using assms by (rule Execute_Ok_resolves)

theorem Execute_returns_what_handler_returns_witness:
  "Execute exampleRuntime (commands githubTree) 0 () [''github'', ''repos'', ''list'']
     (mem githubTree) = Ok ([], Some ''missing required flag: user'')
   \<and> (\<exists>path d as' st' cmd h.
           resolves exampleRuntime (commands githubTree) 0 (drop 1 [''github'', ''repos'', ''list''])
             (mem githubTree) path d as' st' \<and>
           deref (commands githubTree) d = Some cmd \<and> handler cmd = Some h \<and>
           ([], Some ''missing required flag: user'')
             = wrap (concat (map (mwsOf (commands githubTree)) path))
                 (length (concat (map (mwsOf (commands githubTree)) path)))
                 h () (flagSet cmd) as' st' \<and>
           written st' = written (mem githubTree))"
proof -
  have e: "Execute exampleRuntime (commands githubTree) 0 () [''github'', ''repos'', ''list'']
     (mem githubTree) = Ok ([], Some ''missing required flag: user'')"
    by code_simp
  from Execute_returns_what_handler_returns[OF e] e show ?thesis by (rule_tac conjI)
qed

lemma Execute_no_handler:
  assumes "osArgs \<noteq> []" and "deref cs root = Some r"
    and "Execute_loop rt cs root (drop 1 osArgs) (middlewares r) st = Ok (d, as', ms, st1)"
    and "deref cs d = Some cmd" and "handler cmd = None"
    and "deref (flagSets st1) (flagSet cmd) = Some f"
  shows "Execute rt cs root ctx osArgs st =
         (if length as' > 0 then
            res_bind
              (usage rt cs d
                 (Fprint os_Stderr (''command provided but not defined: '' @ as' ! 0 @ NL)
                    (putFlagSet (flagSet cmd) (f\<lparr>fs_output := Some os_Stderr\<rparr>) st1)))
              (\<lambda>st4. Exit 2 st4)
          else res_bind (usage rt cs d st1) (\<lambda>st2. Exit 0 st2))"
  using assms by (simp add: Execute_def Let_def Output_def)

lemma flagValues_Fprint [simp]: "flagValues (Fprint w s st) = flagValues st"
  by (simp add: Fprint_def)

lemma flagValues_putFlagSet [simp]: "flagValues (putFlagSet a f st) = flagValues st"
  by (simp add: putFlagSet_def)

lemma flagSets_Fprint [simp]: "flagSets (Fprint w s st) = flagSets st"
  by (simp add: Fprint_def)

lemma written_Fprint [simp]: "written (Fprint w s st) = written st @ [(w, s)]"
  by (simp add: Fprint_def)

lemma written_putFlagSet [simp]: "written (putFlagSet a f st) = written st"
  by (simp add: putFlagSet_def)

lemma deref_putFlagSet_same:
  "deref (flagSets st) a = Some f \<Longrightarrow> deref (flagSets (putFlagSet a g st)) a = Some g"
  by (auto simp: putFlagSet_def deref_def split: if_splits)

lemma router_exit:
  assumes "osArgs \<noteq> []"
    and r: "resolves rt cs root (drop 1 osArgs) st path d as' st1"
    and c: "deref cs d = Some cmd" and h: "handler cmd = None"
    and f: "deref (flagSets st1) (flagSet cmd) = Some f"
    and p: "rootPath cs d ns"
    and k: "\<forall>(n, a)\<in>set (rangeOrder rt (subCommands cmd)). a < length cs"
  shows "exitStatus (Execute rt cs root ctx osArgs st) = Some (if as' = [] then 0 else 2) \<and>
         writtenAtExit (Execute rt cs root ctx osArgs st) =
           written st @
           (if as' = [] then
              [(Output f,
                rendered rt cs ns cmd (f\<lparr>fs_output := Some strings_Builder\<rparr>) (flagValues st1) @ NL)]
            else
              [(os_Stderr, ''command provided but not defined: '' @ hd as' @ NL),
               (os_Stderr,
                rendered rt cs ns cmd (f\<lparr>fs_output := Some strings_Builder\<rparr>) (flagValues st1) @ NL)])"
proof -
  from resolves_start[OF r] obtain rc where rc: "deref cs root = Some rc" by blast
  from resolves_Execute_loop[OF r, of "middlewares rc"] obtain ms where
    l: "Execute_loop rt cs root (drop 1 osArgs) (middlewares rc) st = Ok (d, as', ms, st1)"
    by blast
  note e = Execute_no_handler[OF assms(1) rc l c h f, of ctx]
  from resolves_written[OF r] have w: "written st1 = written st" .
  show ?thesis
  proof (cases "as' = []")
    case True
    from usage_rendered[OF c f p k]
    have "usage rt cs d st1 =
         Ok (Fprint (Output f)
               (rendered rt cs ns cmd (f\<lparr>fs_output := Some strings_Builder\<rparr>) (flagValues st1) @ NL)
               (putFlagSet (flagSet cmd) (f\<lparr>fs_output := Some strings_Builder\<rparr>) st1))" .
    with e True w show ?thesis
      by (simp add: exitStatus_def writtenAtExit_def)
  next
    case False
    let ?g = "f\<lparr>fs_output := Some os_Stderr\<rparr>"
    let ?st3 = "Fprint os_Stderr (''command provided but not defined: '' @ as' ! 0 @ NL)
                    (putFlagSet (flagSet cmd) ?g st1)"
    have g: "deref (flagSets ?st3) (flagSet cmd) = Some ?g"
      using deref_putFlagSet_same[OF f] by simp
    from usage_rendered[OF c g p k]
    have "usage rt cs d ?st3 =
         Ok (Fprint (Output ?g)
               (rendered rt cs ns cmd (?g\<lparr>fs_output := Some strings_Builder\<rparr>) (flagValues ?st3) @ NL)
               (putFlagSet (flagSet cmd) (?g\<lparr>fs_output := Some strings_Builder\<rparr>) ?st3))" .
    with e False w show ?thesis
      by (simp add: exitStatus_def writtenAtExit_def Output_def hd_conv_nth)
  qed
qed

text \<open>
  C4.  When the walk comes to rest on a node without handler, \<open>Execute\<close> ends the process:
  with status 0 after the usage text alone when no argument is left, and with status 2
  after \<open>command provided but not defined\<close>, the first argument left and the usage text on
  the standard error otherwise.  (The node has a path from the root and its children
  exist, as in every tree made by \<open>Root\<close> and \<open>SubCommand\<close>.)
\<close>

theorem router_without_handler_exits:
  assumes "osArgs \<noteq> []"
    and "resolves rt cs root (drop 1 osArgs) st path d as' st1"
    and "deref cs d = Some cmd" and "handler cmd = None"
    and "deref (flagSets st1) (flagSet cmd) = Some f"
    and "rootPath cs d ns"
    and "\<forall>(n, a)\<in>set (rangeOrder rt (subCommands cmd)). a < length cs"
  shows "exitStatus (Execute rt cs root ctx osArgs st) = Some (if as' = [] then 0 else 2) \<and>
         writtenAtExit (Execute rt cs root ctx osArgs st) =
           written st @
           (if as' = [] then
              [(Output f,
                rendered rt cs ns cmd (f\<lparr>fs_output := Some strings_Builder\<rparr>) (flagValues st1) @ NL)]
            else
              [(os_Stderr, ''command provided but not defined: '' @ hd as' @ NL),
               (os_Stderr,
                rendered rt cs ns cmd (f\<lparr>fs_output := Some strings_Builder\<rparr>) (flagValues st1) @ NL)])"
  using assms by (rule router_exit)

definition githubBogus :: state where
  "githubBogus =
     resolvedState exampleRuntime (commands githubTree) 0 [''repos'', ''bogus''] (mem githubTree)"

theorem router_without_handler_exits_witness:
  "[''github'', ''repos'', ''bogus''] \<noteq> []
   \<and> resolves exampleRuntime (commands githubTree) 0 (drop 1 [''github'', ''repos'', ''bogus''])
        (mem githubTree) [0, 1] 1 [''bogus''] githubBogus
   \<and> deref (commands githubTree) 1 = Some (commands githubTree ! 1)
   \<and> handler (commands githubTree ! 1) = None
   \<and> deref (flagSets githubBogus) (flagSet (commands githubTree ! 1))
       = Some (flagSets githubBogus ! 1)
   \<and> rootPath (commands githubTree) 1 [''github'', ''repos'']
   \<and> list_all (\<lambda>(n, a). a < length (commands githubTree))
         (rangeOrder exampleRuntime (subCommands (commands githubTree ! 1)))
   \<and> exitStatus (Execute exampleRuntime (commands githubTree) 0 ()
        [''github'', ''repos'', ''bogus''] (mem githubTree)) = Some 2
   \<and> writtenAtExit (Execute exampleRuntime (commands githubTree) 0 ()
        [''github'', ''repos'', ''bogus''] (mem githubTree))
      = [(os_Stderr, ''command provided but not defined: '' @ ''bogus'' @ NL),
         (os_Stderr,
          (''Usage: github repos [OPTIONS] COMMAND'' @ NL @ NL
          @ ''Manage GitHub repositories'' @ NL @ NL
          @ ''Options:'' @ NL @ ''  -verbose'' @ NL @ ''    '' @ TAB @ ''Enable verbose output'' @ NL @ NL
          @ ''Subcommands:'' @ NL @ ''  list'' @ NL @ TAB @ ''List repositories of a GitHub user'')
          @ NL)]"
proof -
  have a: "[''github'', ''repos'', ''bogus''] \<noteq> []" by simp
  have r: "resolves exampleRuntime (commands githubTree) 0
        (drop 1 [''github'', ''repos'', ''bogus''])
        (mem githubTree) [0, 1] 1 [''bogus''] githubBogus"
    by code_simp
  have "1 < length (commands githubTree)" by code_simp
  then have c: "deref (commands githubTree) 1 = Some (commands githubTree ! 1)"
    by (simp add: deref_def)
  have h: "handler (commands githubTree ! 1) = None" by code_simp
  have f: "deref (flagSets githubBogus) (flagSet (commands githubTree ! 1))
       = Some (flagSets githubBogus ! 1)" by code_simp
  have p: "rootPath (commands githubTree) 1 [''github'', ''repos'']"
    by (rule rootPath_by_fullCommand[where n = 2 and st = "mem githubTree"]) code_simp
  have k: "\<forall>(n, a)\<in>set (rangeOrder exampleRuntime (subCommands (commands githubTree ! 1))).
         a < length (commands githubTree)" by code_simp
  have w: "written (mem githubTree) = []" by code_simp
  have t: "rendered exampleRuntime (commands githubTree) [''github'', ''repos'']
             (commands githubTree ! 1)
             ((flagSets githubBogus ! 1)\<lparr>fs_output := Some strings_Builder\<rparr>)
             (flagValues githubBogus)
           = ''Usage: github repos [OPTIONS] COMMAND'' @ NL @ NL
          @ ''Manage GitHub repositories'' @ NL @ NL
          @ ''Options:'' @ NL @ ''  -verbose'' @ NL @ ''    '' @ TAB @ ''Enable verbose output'' @ NL @ NL
          @ ''Subcommands:'' @ NL @ ''  list'' @ NL @ TAB @ ''List repositories of a GitHub user''"
    unfolding rendered_def usageLine_def by code_simp
  from router_without_handler_exits[OF a r c h f p k, of "()"]
  have "exitStatus (Execute exampleRuntime (commands githubTree) 0 ()
        [''github'', ''repos'', ''bogus''] (mem githubTree)) = Some 2
   \<and> writtenAtExit (Execute exampleRuntime (commands githubTree) 0 ()
        [''github'', ''repos'', ''bogus''] (mem githubTree))
      = [(os_Stderr, ''command provided but not defined: '' @ ''bogus'' @ NL),
         (os_Stderr,
          (''Usage: github repos [OPTIONS] COMMAND'' @ NL @ NL
          @ ''Manage GitHub repositories'' @ NL @ NL
          @ ''Options:'' @ NL @ ''  -verbose'' @ NL @ ''    '' @ TAB @ ''Enable verbose output'' @ NL @ NL
          @ ''Subcommands:'' @ NL @ ''  list'' @ NL @ TAB @ ''List repositories of a GitHub user'')
          @ NL)]"
    by (simp only: w t list.distinct if_False append_Nil list.sel)
  moreover have "list_all (\<lambda>(n, a). a < length (commands githubTree))
         (rangeOrder exampleRuntime (subCommands (commands githubTree ! 1)))" by code_simp
  ultimately show ?thesis using a r c h f p by (simp only: simp_thms)
qed

text \<open>
  C7.  For a node with a path from the root whose children exist, \<open>usage\<close> prints on the
  flag set's output: the line \<open>Usage:\<close> with the names of the path joined by spaces,
  \<open>[OPTIONS]\<close> exactly when the flag set declares a flag, and for a node with children
  \<open>COMMAND\<close> when it has no handler, \<open>[COMMAND]\<close> when it has one; then the help text if
  there is one, the flags as \<open>PrintDefaults\<close> writes them if there are any, and the
  children, each with its help text if it has one.  The flag set's output is left pointing
  to the builder.
\<close>

theorem usage_renders_node:
  assumes "deref cs c = Some cmd" and "deref (flagSets st) (flagSet cmd) = Some f"
    and "rootPath cs c path"
    and "\<forall>(n, a)\<in>set (rangeOrder rt (subCommands cmd)). a < length cs"
  shows "usage rt cs c st =
         Ok (Fprint (Output f)
               (rendered rt cs path cmd (f\<lparr>fs_output := Some strings_Builder\<rparr>) (flagValues st) @ NL)
               (putFlagSet (flagSet cmd) (f\<lparr>fs_output := Some strings_Builder\<rparr>) st))"
  using assms by (rule usage_rendered)

text \<open>
  The github program called with \<open>-verbose repos\<close>, at rest on the router \<open>repos\<close>: the flag
  of the root has come down to it with the value it had by then as its default.
\<close>

definition githubVerbose :: state where
  "githubVerbose =
     resolvedState exampleRuntime (commands githubTree) 0 [''-verbose'', ''repos''] (mem githubTree)"

theorem usage_renders_node_witness:
  "deref (commands githubTree) 1 = Some (commands githubTree ! 1)
   \<and> deref (flagSets githubVerbose) (flagSet (commands githubTree ! 1))
       = Some (flagSets githubVerbose ! 1)
   \<and> rootPath (commands githubTree) 1 [''github'', ''repos'']
   \<and> list_all (\<lambda>(n, a). a < length (commands githubTree))
         (rangeOrder exampleRuntime (subCommands (commands githubTree ! 1)))
   \<and> usage exampleRuntime (commands githubTree) 1 githubVerbose
      = Ok (Fprint os_Stderr
              ((''Usage: github repos [OPTIONS] COMMAND'' @ NL @ NL
               @ ''Manage GitHub repositories'' @ NL @ NL
               @ ''Options:'' @ NL
               @ ''  -verbose'' @ NL @ ''    '' @ TAB @ ''Enable verbose output (default true)'' @ NL
               @ NL
               @ ''Subcommands:'' @ NL @ ''  list'' @ NL @ TAB @ ''List repositories of a GitHub user'')
               @ NL)
              (putFlagSet 1 ((flagSets githubVerbose ! 1)\<lparr>fs_output := Some strings_Builder\<rparr>)
                 githubVerbose))"
proof -
  have "1 < length (commands githubTree)" by code_simp
  then have c: "deref (commands githubTree) 1 = Some (commands githubTree ! 1)"
    by (simp add: deref_def)
  have f: "deref (flagSets githubVerbose) (flagSet (commands githubTree ! 1))
       = Some (flagSets githubVerbose ! 1)" by code_simp
  have p: "rootPath (commands githubTree) 1 [''github'', ''repos'']"
    by (rule rootPath_by_fullCommand[where n = 2 and st = "mem githubTree"]) code_simp
  have k: "\<forall>(n, a)\<in>set (rangeOrder exampleRuntime (subCommands (commands githubTree ! 1))).
         a < length (commands githubTree)" by code_simp
  have t: "rendered exampleRuntime (commands githubTree) [''github'', ''repos'']
             (commands githubTree ! 1)
             ((flagSets githubVerbose ! 1)\<lparr>fs_output := Some strings_Builder\<rparr>)
             (flagValues githubVerbose)
           = ''Usage: github repos [OPTIONS] COMMAND'' @ NL @ NL
               @ ''Manage GitHub repositories'' @ NL @ NL
               @ ''Options:'' @ NL
               @ ''  -verbose'' @ NL @ ''    '' @ TAB @ ''Enable verbose output (default true)'' @ NL
               @ NL
               @ ''Subcommands:'' @ NL @ ''  list'' @ NL @ TAB @ ''List repositories of a GitHub user''"
    unfolding rendered_def usageLine_def by code_simp
  have o: "Output (flagSets githubVerbose ! 1) = os_Stderr" by code_simp
  have s: "flagSet (commands githubTree ! 1) = 1" by code_simp
  from usage_renders_node[OF c f p k]
  have "usage exampleRuntime (commands githubTree) 1 githubVerbose
      = Ok (Fprint os_Stderr
              ((''Usage: github repos [OPTIONS] COMMAND'' @ NL @ NL
               @ ''Manage GitHub repositories'' @ NL @ NL
               @ ''Options:'' @ NL
               @ ''  -verbose'' @ NL @ ''    '' @ TAB @ ''Enable verbose output (default true)'' @ NL
               @ NL
               @ ''Subcommands:'' @ NL @ ''  list'' @ NL @ TAB @ ''List repositories of a GitHub user'')
               @ NL)
              (putFlagSet 1 ((flagSets githubVerbose ! 1)\<lparr>fs_output := Some strings_Builder\<rparr>)
                 githubVerbose))"
    by (simp only: t o s)
  moreover have "list_all (\<lambda>(n, a). a < length (commands githubTree))
         (rangeOrder exampleRuntime (subCommands (commands githubTree ! 1)))" by code_simp
  ultimately show ?thesis using c f p by (simp only: simp_thms)
qed

text \<open>
  A token that \<open>parseOne\<close> takes for a flag: at least two characters, the first a minus
  sign, and not the terminator \<open>--\<close>.  The name it asks for is what follows the one or two
  minus signs, up to the first \<open>=\<close> after its first character.  The token is unknown to a
  flag set when its syntax is bad or that name is not declared there.
\<close>

definition isFlagToken :: "string \<Rightarrow> bool" where
  "isFlagToken s \<longleftrightarrow> 2 \<le> length s \<and> s ! 0 = CHR ''-'' \<and> s \<noteq> ''--''"

definition afterMinuses :: "string \<Rightarrow> string" where
  "afterMinuses s = drop (if s ! 1 = CHR ''-'' then 2 else 1) s"

definition badSyntax :: "string \<Rightarrow> bool" where
  "badSyntax s \<longleftrightarrow>
     afterMinuses s = [] \<or> hd (afterMinuses s) = CHR ''-'' \<or> hd (afterMinuses s) = CHR ''=''"

definition flagName :: "string \<Rightarrow> string" where
  "flagName s = fst (cutEq (afterMinuses s))"

definition unknownFlag :: "FlagSet \<Rightarrow> string \<Rightarrow> bool" where
  "unknownFlag f s \<longleftrightarrow>
     isFlagToken s \<and> (badSyntax s \<or> map_of (formal f) (flagName s) = None)"

definition helpRequested :: "string \<Rightarrow> bool" where
  "helpRequested s \<longleftrightarrow> \<not> badSyntax s \<and> (flagName s = ''help'' \<or> flagName s = ''h'')"

definition unknownMessage :: "string \<Rightarrow> string" where
  "unknownMessage s =
     (if badSyntax s then ''bad flag syntax: '' @ s
      else ''flag provided but not defined: -'' @ flagName s)"

lemma isFlagToken_tests:
  assumes "isFlagToken s"
  shows "\<not> (length s < 2 \<or> s ! 0 \<noteq> CHR ''-'')" and "\<not> (s ! 1 = CHR ''-'' \<and> length s = 2)"
proof -
  from assms show "\<not> (length s < 2 \<or> s ! 0 \<noteq> CHR ''-'')"
    by (auto simp: isFlagToken_def)
  show "\<not> (s ! 1 = CHR ''-'' \<and> length s = 2)"
  proof
    assume a: "s ! 1 = CHR ''-'' \<and> length s = 2"
    then obtain x y where s: "s = [x, y]"
      by (cases s; cases "tl s") auto
    with a assms show False by (auto simp: isFlagToken_def)
  qed
qed

lemma parseOne_unknown:
  assumes f: "deref (flagSets st) fa = Some f" and a: "args f = s # rest"
    and u: "unknownFlag f s"
  shows "parseOne rt cs fa st =
           (if badSyntax s then
              res_bind (failf rt cs fa (''bad flag syntax: '' @ s) st) (\<lambda>r. Ok (False, r))
            else if flagName s = ''help'' \<or> flagName s = ''h'' then
              res_bind (fs_usage rt cs fa (putFlagSet fa (f\<lparr>args := rest\<rparr>) st))
                (\<lambda>st'. Ok (False, Some ErrHelp, st'))
            else
              res_bind
                (failf rt cs fa (''flag provided but not defined: -'' @ flagName s)
                   (putFlagSet fa (f\<lparr>args := rest\<rparr>) st))
                (\<lambda>r. Ok (False, r)))"
proof -
  from u have t: "isFlagToken s" by (simp add: unknownFlag_def)
  note tests = isFlagToken_tests[OF t]
  show ?thesis
  proof (cases "badSyntax s")
    case True
    then have "length (afterMinuses s) = 0 \<or> afterMinuses s ! 0 = CHR ''-''
               \<or> afterMinuses s ! 0 = CHR ''=''"
      by (cases "afterMinuses s") (auto simp: badSyntax_def)
    with f a tests True show ?thesis
      unfolding parseOne_def afterMinuses_def by (auto simp: Let_def)
  next
    case False
    then have n: "\<not> (length (afterMinuses s) = 0 \<or> afterMinuses s ! 0 = CHR ''-''
               \<or> afterMinuses s ! 0 = CHR ''='')"
      by (cases "afterMinuses s") (auto simp: badSyntax_def)
    from u False have m: "map_of (formal f) (flagName s) = None" by (simp add: unknownFlag_def)
    obtain nm hv val where c: "cutEq (afterMinuses s) = (nm, hv, val)"
      by (cases "cutEq (afterMinuses s)")
    then have nm: "flagName s = nm" by (simp add: flagName_def)
    from f a tests n False m c nm show ?thesis
      unfolding parseOne_def afterMinuses_def by (auto simp: Let_def)
  qed
qed

lemma res_bind_Ok_False:
  "res_bind m (\<lambda>r. Ok (False, r)) = Ok (seen, e, st') \<Longrightarrow> \<not> seen \<and> m = Ok (e, st')"
  by (cases m) auto

lemma parseOne_unknown_Ok:
  assumes "deref (flagSets st) fa = Some f" and "args f = s # rest" and "unknownFlag f s"
    and "parseOne rt cs fa st = Ok (seen, e, st')"
  shows "\<not> seen \<and> e \<noteq> None"
proof -
  note p = parseOne_unknown[OF assms(1,2,3), of rt cs]
  show ?thesis
  proof (cases "badSyntax s")
    case True
    with p assms(4) have "res_bind (failf rt cs fa (''bad flag syntax: '' @ s) st)
        (\<lambda>r. Ok (False, r)) = Ok (seen, e, st')" by simp
    from res_bind_Ok_False[OF this] show ?thesis by (auto dest: failf_Some)
  next
    case False
    show ?thesis
    proof (cases "flagName s = ''help'' \<or> flagName s = ''h''")
      case True
      with p assms(4) False have "res_bind (fs_usage rt cs fa (putFlagSet fa (f\<lparr>args := rest\<rparr>) st))
                (\<lambda>st'. Ok (False, Some ErrHelp, st')) = Ok (seen, e, st')" by simp
      then show ?thesis by (auto simp: res_bind_Ok_iff)
    next
      case h: False
      with p assms(4) False have "res_bind
                (failf rt cs fa (''flag provided but not defined: -'' @ flagName s)
                   (putFlagSet fa (f\<lparr>args := rest\<rparr>) st))
                (\<lambda>r. Ok (False, r)) = Ok (seen, e, st')" by simp
      from res_bind_Ok_False[OF this] show ?thesis by (auto dest: failf_Some)
    qed
  qed
qed

text \<open>
  The walk before it comes to rest: the node it is at after some descents, the arguments
  that node is about to parse, and the state.
\<close>

inductive descends ::
  "runtime \<Rightarrow> ('c, 'r) command list \<Rightarrow> addr \<Rightarrow> string list \<Rightarrow> state
   \<Rightarrow> addr \<Rightarrow> string list \<Rightarrow> state \<Rightarrow> bool"
  for rt :: runtime and cs :: "('c, 'r) command list"
where
  arrived: "descends rt cs c as st c as st"
| further:
    "deref cs c = Some cmd \<Longrightarrow> Parse rt cs (flagSet cmd) as st = Ok (None, st1) \<Longrightarrow>
     deref (flagSets st1) (flagSet cmd) = Some f \<Longrightarrow> args f = t # ts \<Longrightarrow>
     map_of (subCommands cmd) t = Some d \<Longrightarrow> deref cs d = Some sub \<Longrightarrow>
     propagate rt (flagSet sub) (VisitAll f) st1 = Ok st2 \<Longrightarrow>
     descends rt cs d ts st2 e as' st' \<Longrightarrow>
     descends rt cs c as st e as' st'"

code_pred (modes: i \<Rightarrow> i \<Rightarrow> i \<Rightarrow> i \<Rightarrow> i \<Rightarrow> i \<Rightarrow> i \<Rightarrow> i \<Rightarrow> bool) descends .

lemma descends_Execute_loop:
  "descends rt cs c as st e as' st' \<Longrightarrow>
   \<exists>ms. Execute_loop rt cs c as mws st = Execute_loop rt cs e as' (mws @ ms) st'"
proof (induction arbitrary: mws rule: descends.induct)
  case (arrived c as st)
  show ?case by (rule exI[of _ "[]"]) simp
next
  case (further c cmd as st st1 f t ts d sub st2 e as' st')
  have l: "loopBody rt cs c as st = Ok (ts, Some d, st2)"
    using further.hyps(1-7) by (rule loopBody_continue)
  have "Execute_loop rt cs c as mws st = Execute_loop rt cs d ts (mws @ middlewares sub) st2"
    by (subst Execute_loop.simps) (simp add: l further.hyps(6))
  moreover from further.IH[of "mws @ middlewares sub"] obtain ms where
    "Execute_loop rt cs d ts (mws @ middlewares sub) st2
     = Execute_loop rt cs e as' ((mws @ middlewares sub) @ ms) st'" by blast
  ultimately show ?case by (intro exI[of _ "middlewares sub @ ms"]) simp
qed

lemma descends_written: "descends rt cs c as st e as' st' \<Longrightarrow> written st' = written st"
  by (induction rule: descends.induct) (auto dest!: Parse_written propagate_written)

lemma descends_start:
  "descends rt cs c as st e as' st' \<Longrightarrow> deref cs e = Some x \<Longrightarrow> \<exists>r. deref cs c = Some r"
  by (induction rule: descends.induct) (simp_all only: option.inject exI)

lemma Execute_loop_of:
  assumes "osArgs \<noteq> []" and "deref cs root = Some r"
  shows "Execute rt cs root ctx osArgs st =
         res_bind (Execute_loop rt cs root (drop 1 osArgs) (middlewares r) st)
           (\<lambda>(command, args1, mws, st1).
                  (case deref cs command of
                     None \<Rightarrow> Panic nilDeref st1
                   | Some cmd \<Rightarrow>
                       (case handler cmd of
                          None \<Rightarrow>
                            if length args1 > 0 then
                              (case deref (flagSets st1) (flagSet cmd) of
                                 None \<Rightarrow> Panic nilDeref st1
                               | Some f \<Rightarrow>
                                   let f' = f\<lparr>fs_output := Some os_Stderr\<rparr>;
                                       st2 = putFlagSet (flagSet cmd) f' st1;
                                       st3 = Fprint (Output f')
                                               (''command provided but not defined: ''
                                                @ args1 ! 0 @ NL) st2
                                   in res_bind (usage rt cs command st3) (\<lambda>st4. Exit 2 st4))
                            else res_bind (usage rt cs command st1) (\<lambda>st2. Exit 0 st2)
                        | Some h \<Rightarrow>
                            Ok (wrap mws (length mws) h ctx (flagSet cmd) args1 st1))))"
  using assms by (simp add: Execute_def)

lemma res_bind_not_Ok: "(\<And>y. m \<noteq> Ok y) \<Longrightarrow> res_bind m k \<noteq> Ok x"
  by (cases m) auto

lemma res_bind_Exit: "m = Exit n s \<Longrightarrow> res_bind m k = Exit n s"
  by simp

lemma putFlagSet_twice [simp]: "putFlagSet a g (putFlagSet a f st) = putFlagSet a g st"
  by (simp add: putFlagSet_def)

lemma Output_update [simp]:
  "Output (f\<lparr>args := x\<rparr>) = Output f" "Output (f\<lparr>parsed := y\<rparr>) = Output f"
  by (simp_all add: Output_def)

text \<open>
  The loop of \<open>Parse\<close> after some turns, each of them a call of \<open>parseOne\<close> that has seen
  a flag and set it: the node is in the middle of its arguments.
\<close>

inductive parses ::
  "runtime \<Rightarrow> ('c, 'r) command list \<Rightarrow> addr \<Rightarrow> state \<Rightarrow> state \<Rightarrow> bool"
  for rt :: runtime and cs :: "('c, 'r) command list" and fa :: addr
where
  begun: "parses rt cs fa st st"
| taken:
    "parseOne rt cs fa st = Ok (True, e, st1) \<Longrightarrow> parses rt cs fa st1 st' \<Longrightarrow>
     parses rt cs fa st st'"

code_pred (modes: i \<Rightarrow> i \<Rightarrow> i \<Rightarrow> i \<Rightarrow> i \<Rightarrow> bool) parses .

lemma parses_Parse_loop:
  "parses rt cs fa st st' \<Longrightarrow> Parse_loop rt cs fa st = Parse_loop rt cs fa st'"
proof (induction rule: parses.induct)
  case (begun st)
  show ?case by (rule refl)
next
  case (taken st e st1 st')
  have "Parse_loop rt cs fa st = Parse_loop rt cs fa st1"
    by (subst Parse_loop.simps) (simp add: taken.hyps(1))
  with taken.IH show ?case by simp
qed

lemma parses_written: "parses rt cs fa st st' \<Longrightarrow> written st' = written st"
proof (induction rule: parses.induct)
  case (begun st)
  show ?case by (rule refl)
next
  case (taken st e st1 st')
  from parseOne_seen_None[OF taken.hyps(1)] taken.hyps(1)
  have "parseOne rt cs fa st = Ok (True, None, st1)" by simp
  from parseOne_None_written[OF this] taken.IH show ?case by simp
qed

lemma fs_usage_bound:
  assumes "deref (flagSets st) fa = Some g" and "fs_Usage g = Some u"
    and "deref cs u = Some ucmd" and "deref (flagSets st) (flagSet ucmd) = Some gu"
    and "rootPath cs u ns"
    and "\<forall>(n, a)\<in>set (rangeOrder rt (subCommands ucmd)). a < length cs"
  shows "fs_usage rt cs fa st =
         Ok (Fprint (Output gu)
               (rendered rt cs ns ucmd (gu\<lparr>fs_output := Some strings_Builder\<rparr>) (flagValues st) @ NL)
               (putFlagSet (flagSet ucmd) (gu\<lparr>fs_output := Some strings_Builder\<rparr>) st))"
  using assms(1,2) usage_rendered[OF assms(3,4,5,6)] by (simp add: fs_usage_def)

lemma failf_bound:
  assumes "deref (flagSets st) fa = Some g" and "fs_Usage g = Some u"
    and "deref cs u = Some ucmd" and "deref (flagSets st) (flagSet ucmd) = Some gu"
    and "rootPath cs u ns"
    and "\<forall>(n, a)\<in>set (rangeOrder rt (subCommands ucmd)). a < length cs"
  shows "failf rt cs fa msg st =
         Ok (Some (errorString msg),
             Fprint (Output gu)
               (rendered rt cs ns ucmd (gu\<lparr>fs_output := Some strings_Builder\<rparr>) (flagValues st) @ NL)
               (putFlagSet (flagSet ucmd) (gu\<lparr>fs_output := Some strings_Builder\<rparr>)
                  (Fprint (Output g) (msg @ NL) st)))"
proof -
  let ?st = "Fprint (Output g) (msg @ NL) st"
  have 1: "deref (flagSets ?st) fa = Some g" using assms(1) by simp
  have 2: "deref (flagSets ?st) (flagSet ucmd) = Some gu" using assms(4) by simp
  from fs_usage_bound[OF 1 assms(2,3) 2 assms(5,6)] assms(1) show ?thesis
    by (simp add: failf_def)
qed

lemma deref_put_other:
  "deref (flagSets (putFlagSet a g st)) b =
     (if b < length (flagSets st) then Some (if a = b then g else flagSets st ! b) else None)"
  by (simp add: putFlagSet_def)

lemma deref_Some_nth: "deref xs a = Some x \<Longrightarrow> a < length xs \<and> xs ! a = x"
  by (auto simp: deref_def split: if_splits)

lemma parseOne_unknown_error:
  assumes f: "deref (flagSets st) fa = Some f" and a: "args f = s # rest"
    and u: "unknownFlag f s"
    and us: "fs_Usage f = Some u" and uc: "deref cs u = Some ucmd"
    and fu: "deref (flagSets st) (flagSet ucmd) = Some fu"
    and p: "rootPath cs u ns"
    and k: "\<forall>(n, a)\<in>set (rangeOrder rt (subCommands ucmd)). a < length cs"
  shows "\<exists>stF h. parseOne rt cs fa st
            = Ok (False, Some (if helpRequested s then ErrHelp
                               else errorString (unknownMessage s)), stF)
         \<and> written stF = written st
             @ (if helpRequested s then [] else [(Output f, unknownMessage s @ NL)])
             @ [(Output fu,
                 rendered rt cs ns ucmd
                   ((if flagSet ucmd = fa \<and> \<not> badSyntax s then fu\<lparr>args := rest\<rparr> else fu)
                      \<lparr>fs_output := Some strings_Builder\<rparr>)
                   (flagValues st) @ NL)]
         \<and> deref (flagSets stF) fa = Some h \<and> errorHandling h = errorHandling f"
proof -
  note one = parseOne_unknown[OF f a u, of rt cs]
  from deref_Some_nth[OF f] have fl: "fa < length (flagSets st)" "flagSets st ! fa = f" by simp_all
  from deref_Some_nth[OF fu] have ful: "flagSet ucmd < length (flagSets st)"
    "flagSets st ! flagSet ucmd = fu" by simp_all
  have same: "flagSet ucmd = fa \<Longrightarrow> fu = f" using fl ful by simp
  show ?thesis
  proof (cases "badSyntax s")
    case True
    then have nh: "\<not> helpRequested s" by (simp add: helpRequested_def)
    let ?msg = "''bad flag syntax: '' @ s"
    let ?stF = "Fprint (Output fu)
               (rendered rt cs ns ucmd (fu\<lparr>fs_output := Some strings_Builder\<rparr>) (flagValues st) @ NL)
               (putFlagSet (flagSet ucmd) (fu\<lparr>fs_output := Some strings_Builder\<rparr>)
                  (Fprint (Output f) (?msg @ NL) st))"
    from one True failf_bound[OF f us uc fu p k, of ?msg]
    have o: "parseOne rt cs fa st = Ok (False, Some (errorString ?msg), ?stF)" by simp
    have m: "unknownMessage s = ?msg" using True by (simp add: unknownMessage_def)
    let ?h = "if flagSet ucmd = fa then fu\<lparr>fs_output := Some strings_Builder\<rparr> else f"
    have h: "deref (flagSets ?stF) fa = Some ?h"
      using fl by (simp add: deref_put_other)
    have e: "errorHandling ?h = errorHandling f" using same by simp
    have w: "written ?stF = written st @ [(Output f, ?msg @ NL)]
             @ [(Output fu,
                 rendered rt cs ns ucmd (fu\<lparr>fs_output := Some strings_Builder\<rparr>) (flagValues st) @ NL)]"
      by simp
    show ?thesis
      apply (rule exI[of _ ?stF], rule exI[of _ ?h])
      using o h e w nh True m by simp
  next
    case False
    let ?f1 = "f\<lparr>args := rest\<rparr>"
    let ?st1 = "putFlagSet fa ?f1 st"
    let ?fu1 = "if flagSet ucmd = fa then fu\<lparr>args := rest\<rparr> else fu"
    have f1: "deref (flagSets ?st1) fa = Some ?f1" using f by (rule deref_putFlagSet_same)
    have us1: "fs_Usage ?f1 = Some u" using us by simp
    have fu1: "deref (flagSets ?st1) (flagSet ucmd) = Some ?fu1"
      using ful same by (auto simp: deref_put_other)
    have out: "Output ?fu1 = Output fu" by simp
    let ?h = "if flagSet ucmd = fa then ?fu1\<lparr>fs_output := Some strings_Builder\<rparr> else ?f1"
    have e: "errorHandling ?h = errorHandling f" using same by simp
    show ?thesis
    proof (cases "flagName s = ''help'' \<or> flagName s = ''h''")
      case True
      with False have hr: "helpRequested s" by (simp add: helpRequested_def)
      let ?stF = "Fprint (Output ?fu1)
               (rendered rt cs ns ucmd (?fu1\<lparr>fs_output := Some strings_Builder\<rparr>) (flagValues ?st1) @ NL)
               (putFlagSet (flagSet ucmd) (?fu1\<lparr>fs_output := Some strings_Builder\<rparr>) ?st1)"
      from one False True fs_usage_bound[OF f1 us1 uc fu1 p k]
      have o: "parseOne rt cs fa st = Ok (False, Some ErrHelp, ?stF)" by simp
      have h: "deref (flagSets ?stF) fa = Some ?h"
        using fl by (simp add: deref_put_other putFlagSet_def)
      have w: "written ?stF = written st
             @ [(Output fu,
                 rendered rt cs ns ucmd (?fu1\<lparr>fs_output := Some strings_Builder\<rparr>) (flagValues st) @ NL)]"
        by (simp only: written_Fprint written_putFlagSet out flagValues_putFlagSet)
      show ?thesis
        apply (rule exI[of _ ?stF], rule exI[of _ ?h])
        using o h e w hr False by simp
    next
      case nh': False
      with False have nh: "\<not> helpRequested s" by (simp add: helpRequested_def)
      let ?msg = "''flag provided but not defined: -'' @ flagName s"
      let ?stF = "Fprint (Output ?fu1)
               (rendered rt cs ns ucmd (?fu1\<lparr>fs_output := Some strings_Builder\<rparr>) (flagValues ?st1) @ NL)
               (putFlagSet (flagSet ucmd) (?fu1\<lparr>fs_output := Some strings_Builder\<rparr>)
                  (Fprint (Output ?f1) (?msg @ NL) ?st1))"
      from one False nh' failf_bound[OF f1 us1 uc fu1 p k, of ?msg]
      have o: "parseOne rt cs fa st = Ok (False, Some (errorString ?msg), ?stF)" by simp
      have m: "unknownMessage s = ?msg" using False by (simp add: unknownMessage_def)
      have h: "deref (flagSets ?stF) fa = Some ?h"
        using fl by (simp add: deref_put_other putFlagSet_def)
      have w: "written ?stF = written st @ [(Output f, ?msg @ NL)]
             @ [(Output fu,
                 rendered rt cs ns ucmd (?fu1\<lparr>fs_output := Some strings_Builder\<rparr>) (flagValues st) @ NL)]"
        by (simp only: written_Fprint written_putFlagSet out flagValues_putFlagSet Output_update
              append_assoc)
      show ?thesis
        apply (rule exI[of _ ?stF], rule exI[of _ ?h])
        using o h e w nh False m by simp
    qed
  qed
qed

lemma Parse_loop_error:
  assumes "parseOne rt cs fa st = Ok (False, Some e, stF)" and "deref (flagSets stF) fa = Some h"
  shows "Parse_loop rt cs fa st =
           (case errorHandling h of
              ContinueOnError \<Rightarrow> Ok (Some e, stF)
            | ExitOnError \<Rightarrow> if e = ErrHelp then Exit 0 stF else Exit 2 stF
            | PanicOnError \<Rightarrow> Panic (error_Error e) stF)"
  using assms by (subst Parse_loop.simps) simp

lemma Parse_loop_unknown_not_None:
  assumes f: "deref (flagSets st) fa = Some f" and a: "args f = s # rest"
    and u: "unknownFlag f s"
  shows "Parse_loop rt cs fa st \<noteq> Ok (None, st')"
proof
  assume "Parse_loop rt cs fa st = Ok (None, st')"
  then show False
  proof (cases rule: Parse_loop_Ok_cases)
    case (again st1)
    from parseOne_unknown_Ok[OF f a u again(1)] show False by simp
  next
    case stop
    from parseOne_unknown_Ok[OF f a u stop] show False by simp
  qed
qed

lemma Parse_parses:
  assumes "deref (flagSets st) fa = Some f0"
    and "parses rt cs fa (putFlagSet fa (f0\<lparr>parsed := True, args := as\<rparr>) st) st2"
  shows "Parse rt cs fa as st = Parse_loop rt cs fa st2"
  using assms(1) parses_Parse_loop[OF assms(2)] by (simp add: Parse_def)

lemma loopBody_Parse_exit:
  assumes "deref cs c = Some cmd"
    and "Parse rt cs (flagSet cmd) as st = Exit n stF \<or>
         (\<exists>e. Parse rt cs (flagSet cmd) as st = Ok (Some e, stF) \<and> n = 2)"
  shows "loopBody rt cs c as st = Exit n stF"
  using assms by (auto simp: loopBody_def)

lemma unknown_flag_reached:
  assumes a: "osArgs \<noteq> []"
    and d: "descends rt cs root (drop 1 osArgs) st d as st1"
    and c: "deref cs d = Some cmd" and f0: "deref (flagSets st1) (flagSet cmd) = Some f0"
    and ps: "parses rt cs (flagSet cmd)
               (putFlagSet (flagSet cmd) (f0\<lparr>parsed := True, args := as\<rparr>) st1) st2"
    and f: "deref (flagSets st2) (flagSet cmd) = Some f" and ar: "args f = s # rest"
    and u: "unknownFlag f s"
  shows "(\<forall>x. Execute rt cs root ctx osArgs st \<noteq> Ok x) \<and>
         (errorHandling f \<noteq> PanicOnError \<and> fs_Usage f = Some u \<and> deref cs u = Some ucmd \<and>
          deref (flagSets st2) (flagSet ucmd) = Some fu \<and> rootPath cs u ns \<and>
          (\<forall>(n, a)\<in>set (rangeOrder rt (subCommands ucmd)). a < length cs) \<longrightarrow>
          exitStatus (Execute rt cs root ctx osArgs st)
            = Some (if errorHandling f = ExitOnError \<and> helpRequested s then 0 else 2) \<and>
          writtenAtExit (Execute rt cs root ctx osArgs st) =
            written st
            @ (if helpRequested s then [] else [(Output f, unknownMessage s @ NL)])
            @ [(Output fu,
                rendered rt cs ns ucmd
                  ((if flagSet ucmd = flagSet cmd \<and> \<not> badSyntax s then fu\<lparr>args := rest\<rparr> else fu)
                     \<lparr>fs_output := Some strings_Builder\<rparr>)
                  (flagValues st2) @ NL)])"
proof -
  let ?fa = "flagSet cmd"
  from descends_start[OF d c] obtain r where r: "deref cs root = Some r" by blast
  from descends_Execute_loop[OF d, of "middlewares r"] obtain ms where
    l: "Execute_loop rt cs root (drop 1 osArgs) (middlewares r) st
        = Execute_loop rt cs d as (middlewares r @ ms) st1" by blast
  note e = Execute_loop_of[OF a r, of rt ctx st]
  note P = Parse_parses[OF f0 ps]
  have "\<forall>x. Execute rt cs root ctx osArgs st \<noteq> Ok x"
  proof
    fix x
    have "\<And>y. Execute_loop rt cs d as (middlewares r @ ms) st1 \<noteq> Ok y"
    proof
      fix y assume "Execute_loop rt cs d as (middlewares r @ ms) st1 = Ok y"
      then obtain z where "loopBody rt cs d as st1 = Ok z"
        by (subst (asm) Execute_loop.simps) (auto simp: res_bind_Ok_iff)
      moreover obtain as1 n st3 where "z = (as1, n, st3)" by (cases z)
      ultimately have "loopBody rt cs d as st1 = Ok (as1, n, st3)" by simp
      then show False
      proof (rule loopBody_Ok)
        fix cmd' st0 f'
        assume "deref cs d = Some cmd'"
          and p: "Parse rt cs (flagSet cmd') as st1 = Ok (None, st0)"
        with c have "cmd' = cmd" by (simp only: option.inject)
        with p P have "Parse_loop rt cs ?fa st2 = Ok (None, st0)" by simp
        with Parse_loop_unknown_not_None[OF f ar u, of rt cs st0] show False by simp
      qed
    qed
    then have "\<And>y. Execute_loop rt cs root (drop 1 osArgs) (middlewares r) st \<noteq> Ok y"
      unfolding l .
    then show "Execute rt cs root ctx osArgs st \<noteq> Ok x"
      unfolding e by (rule res_bind_not_Ok)
  qed
  moreover
  {
    assume eh: "errorHandling f \<noteq> PanicOnError" and us: "fs_Usage f = Some u"
      and uc: "deref cs u = Some ucmd"
      and fu: "deref (flagSets st2) (flagSet ucmd) = Some fu"
      and p: "rootPath cs u ns"
      and k: "\<forall>(n, a)\<in>set (rangeOrder rt (subCommands ucmd)). a < length cs"
    let ?e = "if helpRequested s then ErrHelp else errorString (unknownMessage s)"
    let ?n = "if errorHandling f = ExitOnError \<and> helpRequested s then 0 else 2 :: int"
    from parseOne_unknown_error[OF f ar u us uc fu p k] obtain stF h where
      o: "parseOne rt cs ?fa st2 = Ok (False, Some ?e, stF)"
      and w: "written stF = written st2
             @ (if helpRequested s then [] else [(Output f, unknownMessage s @ NL)])
             @ [(Output fu,
                 rendered rt cs ns ucmd
                   ((if flagSet ucmd = ?fa \<and> \<not> badSyntax s then fu\<lparr>args := rest\<rparr> else fu)
                      \<lparr>fs_output := Some strings_Builder\<rparr>)
                   (flagValues st2) @ NL)]"
      and h: "deref (flagSets stF) ?fa = Some h" and he: "errorHandling h = errorHandling f"
      by blast
    note pl = Parse_loop_error[OF o h, unfolded he]
    have "Parse rt cs ?fa as st1 = Exit ?n stF \<or>
         (\<exists>e. Parse rt cs ?fa as st1 = Ok (Some e, stF) \<and> ?n = 2)"
      using eh pl unfolding P by (cases "errorHandling f") auto
    from loopBody_Parse_exit[OF c this]
    have "Execute_loop rt cs d as (middlewares r @ ms) st1 = Exit ?n stF"
      by (subst Execute_loop.simps) simp
    with l have "Execute_loop rt cs root (drop 1 osArgs) (middlewares r) st = Exit ?n stF"
      by simp
    then have x: "Execute rt cs root ctx osArgs st = Exit ?n stF"
      unfolding e by (rule res_bind_Exit)
    from parses_written[OF ps] descends_written[OF d] have "written st2 = written st" by simp
    with w have "exitStatus (Execute rt cs root ctx osArgs st) = Some ?n \<and>
          writtenAtExit (Execute rt cs root ctx osArgs st) =
            written st
            @ (if helpRequested s then [] else [(Output f, unknownMessage s @ NL)])
            @ [(Output fu,
                rendered rt cs ns ucmd
                  ((if flagSet ucmd = ?fa \<and> \<not> badSyntax s then fu\<lparr>args := rest\<rparr> else fu)
                     \<lparr>fs_output := Some strings_Builder\<rparr>)
                  (flagValues st2) @ NL)]"
      unfolding x by (simp add: exitStatus_def writtenAtExit_def)
  }
  ultimately show ?thesis by blast
qed

lemma parseOne_unknown_default:
  assumes f: "deref (flagSets st) fa = Some f" and a: "args f = s # rest"
    and u: "unknownFlag f s" and us: "fs_Usage f = None"
  shows "\<exists>stF h. parseOne rt cs fa st
            = Ok (False, Some (if helpRequested s then ErrHelp
                               else errorString (unknownMessage s)), stF)
         \<and> written stF = written st
             @ (if helpRequested s then [] else [(Output f, unknownMessage s @ NL)])
             @ [(Output f,
                 if fs_name f = [] then ''Usage:'' @ NL else ''Usage of '' @ fs_name f @ '':'' @ NL),
                (Output f,
                 PrintDefaults rt (if badSyntax s then f else f\<lparr>args := rest\<rparr>) (flagValues st))]
         \<and> deref (flagSets stF) fa = Some h \<and> errorHandling h = errorHandling f"
proof -
  note one = parseOne_unknown[OF f a u, of rt cs]
  show ?thesis
  proof (cases "badSyntax s")
    case True
    then have nh: "\<not> helpRequested s" by (simp add: helpRequested_def)
    let ?msg = "''bad flag syntax: '' @ s"
    let ?stF = "defaultUsage rt f (Fprint (Output f) (?msg @ NL) st)"
    have "failf rt cs fa ?msg st = Ok (Some (errorString ?msg), ?stF)"
      using f us by (simp add: failf_def fs_usage_def)
    with one True have o: "parseOne rt cs fa st = Ok (False, Some (errorString ?msg), ?stF)"
      by simp
    have m: "unknownMessage s = ?msg" using True by (simp add: unknownMessage_def)
    have h: "deref (flagSets ?stF) fa = Some f" using f by (simp add: defaultUsage_def)
    show ?thesis
      apply (rule exI[of _ ?stF], rule exI[of _ f])
      using o h nh True m by (simp add: defaultUsage_def)
  next
    case False
    let ?f1 = "f\<lparr>args := rest\<rparr>"
    let ?st1 = "putFlagSet fa ?f1 st"
    have f1: "deref (flagSets ?st1) fa = Some ?f1" using f by (rule deref_putFlagSet_same)
    have us1: "fs_Usage ?f1 = None" using us by simp
    show ?thesis
    proof (cases "flagName s = ''help'' \<or> flagName s = ''h''")
      case True
      with False have hr: "helpRequested s" by (simp add: helpRequested_def)
      let ?stF = "defaultUsage rt ?f1 ?st1"
      have "fs_usage rt cs fa ?st1 = Ok ?stF" using f1 us1 by (simp add: fs_usage_def)
      with one False True have o: "parseOne rt cs fa st = Ok (False, Some ErrHelp, ?stF)"
        by simp
      have h: "deref (flagSets ?stF) fa = Some ?f1" using f1 by (simp add: defaultUsage_def)
      show ?thesis
        apply (rule exI[of _ ?stF], rule exI[of _ ?f1])
        using o h hr False by (simp add: defaultUsage_def)
    next
      case nh': False
      with False have nh: "\<not> helpRequested s" by (simp add: helpRequested_def)
      let ?msg = "''flag provided but not defined: -'' @ flagName s"
      let ?stF = "defaultUsage rt ?f1 (Fprint (Output ?f1) (?msg @ NL) ?st1)"
      have "failf rt cs fa ?msg ?st1 = Ok (Some (errorString ?msg), ?stF)"
        using f1 us1 by (simp add: failf_def fs_usage_def)
      with one False nh' have o: "parseOne rt cs fa st = Ok (False, Some (errorString ?msg), ?stF)"
        by simp
      have m: "unknownMessage s = ?msg" using False by (simp add: unknownMessage_def)
      have h: "deref (flagSets ?stF) fa = Some ?f1" using f1 by (simp add: defaultUsage_def)
      show ?thesis
        apply (rule exI[of _ ?stF], rule exI[of _ ?f1])
        using o h nh False m by (simp add: defaultUsage_def)
    qed
  qed
qed

lemma unknown_flag_ends:
  assumes a: "osArgs \<noteq> []"
    and d: "descends rt cs root (drop 1 osArgs) st d as st1"
    and c: "deref cs d = Some cmd" and f0: "deref (flagSets st1) (flagSet cmd) = Some f0"
    and ps: "parses rt cs (flagSet cmd)
               (putFlagSet (flagSet cmd) (f0\<lparr>parsed := True, args := as\<rparr>) st1) st2"
    and o: "parseOne rt cs (flagSet cmd) st2 = Ok (False, Some e, stF)"
    and h: "deref (flagSets stF) (flagSet cmd) = Some h"
    and eh: "errorHandling h \<noteq> PanicOnError"
  shows "Execute rt cs root ctx osArgs st
         = Exit (if errorHandling h = ExitOnError \<and> e = ErrHelp then 0 else 2) stF"
    and "written st2 = written st"
proof -
  let ?fa = "flagSet cmd"
  let ?n = "if errorHandling h = ExitOnError \<and> e = ErrHelp then 0 else 2 :: int"
  from descends_start[OF d c] obtain r where r: "deref cs root = Some r" by blast
  from descends_Execute_loop[OF d, of "middlewares r"] obtain ms where
    l: "Execute_loop rt cs root (drop 1 osArgs) (middlewares r) st
        = Execute_loop rt cs d as (middlewares r @ ms) st1" by blast
  note ex = Execute_loop_of[OF a r, of rt ctx st]
  note P = Parse_parses[OF f0 ps]
  note pl = Parse_loop_error[OF o h]
  have "Parse rt cs ?fa as st1 = Exit ?n stF \<or>
         (\<exists>e. Parse rt cs ?fa as st1 = Ok (Some e, stF) \<and> ?n = 2)"
    using eh pl unfolding P by (cases "errorHandling h") auto
  from loopBody_Parse_exit[OF c this]
  have "Execute_loop rt cs d as (middlewares r @ ms) st1 = Exit ?n stF"
    by (subst Execute_loop.simps) simp
  with l have "Execute_loop rt cs root (drop 1 osArgs) (middlewares r) st = Exit ?n stF"
    by simp
  then show "Execute rt cs root ctx osArgs st = Exit ?n stF"
    unfolding ex by (rule res_bind_Exit)
  from parses_written[OF ps] descends_written[OF d] show "written st2 = written st" by simp
qed

lemma unknown_flag_reached_default:
  assumes a: "osArgs \<noteq> []"
    and d: "descends rt cs root (drop 1 osArgs) st d as st1"
    and c: "deref cs d = Some cmd" and f0: "deref (flagSets st1) (flagSet cmd) = Some f0"
    and ps: "parses rt cs (flagSet cmd)
               (putFlagSet (flagSet cmd) (f0\<lparr>parsed := True, args := as\<rparr>) st1) st2"
    and f: "deref (flagSets st2) (flagSet cmd) = Some f" and ar: "args f = s # rest"
    and u: "unknownFlag f s"
    and eh: "errorHandling f \<noteq> PanicOnError" and us: "fs_Usage f = None"
  shows "exitStatus (Execute rt cs root ctx osArgs st)
            = Some (if errorHandling f = ExitOnError \<and> helpRequested s then 0 else 2) \<and>
         writtenAtExit (Execute rt cs root ctx osArgs st) =
            written st
            @ (if helpRequested s then [] else [(Output f, unknownMessage s @ NL)])
            @ [(Output f,
                if fs_name f = [] then ''Usage:'' @ NL else ''Usage of '' @ fs_name f @ '':'' @ NL),
               (Output f,
                PrintDefaults rt (if badSyntax s then f else f\<lparr>args := rest\<rparr>) (flagValues st2))]"
proof -
  let ?e = "if helpRequested s then ErrHelp else errorString (unknownMessage s)"
  from parseOne_unknown_default[OF f ar u us, of rt cs] obtain stF h where
    o: "parseOne rt cs (flagSet cmd) st2 = Ok (False, Some ?e, stF)"
    and w: "written stF = written st2
             @ (if helpRequested s then [] else [(Output f, unknownMessage s @ NL)])
             @ [(Output f,
                 if fs_name f = [] then ''Usage:'' @ NL else ''Usage of '' @ fs_name f @ '':'' @ NL),
                (Output f,
                 PrintDefaults rt (if badSyntax s then f else f\<lparr>args := rest\<rparr>) (flagValues st2))]"
    and h: "deref (flagSets stF) (flagSet cmd) = Some h" and he: "errorHandling h = errorHandling f"
    by blast
  from eh he have eh': "errorHandling h \<noteq> PanicOnError" by simp
  note E = unknown_flag_ends(1)[OF a d c f0 ps o h eh', of ctx]
    unknown_flag_ends(2)[OF a d c f0 ps o h eh']
  have "(?e = ErrHelp) = helpRequested s" by simp
  with E w he show ?thesis
    by (simp add: exitStatus_def writtenAtExit_def)
qed


text \<open>
  The echo program called with \<open>-verbose echo --case=upper -x\<close>: the state in which the
  subcommand is about to parse \<open>--case=upper -x\<close>, and the state in which it has set
  \<open>case\<close> and comes to \<open>-x\<close>.
\<close>

definition echoAtSub :: state where
  "echoAtSub =
     (case loopBody exampleRuntime (commands echoTree) 0
             [''-verbose'', ''echo'', ''--case=upper'', ''-x''] (mem echoTree) of
        Ok (_, _, s) \<Rightarrow> s | _ \<Rightarrow> mem echoTree)"

definition echoAtFlag :: state where
  "echoAtFlag =
     (case parseOne exampleRuntime (commands echoTree) 1
             (putFlagSet 1 ((flagSets echoAtSub ! 1)\<lparr>parsed := True, args := [''--case=upper'', ''-x'']\<rparr>)
                echoAtSub) of
        Ok (_, _, s) \<Rightarrow> s | _ \<Rightarrow> echoAtSub)"

text \<open>
  The echo program with \<open>Usage\<close> of \<open>flag.CommandLine\<close> set to \<open>nil\<close>, called with \<open>-x\<close>:
  the state before the call, and the state in which the root comes to \<open>-x\<close>.
\<close>

definition echoNoUsage :: state where
  "echoNoUsage = putFlagSet 0 ((flagSets (mem echoTree) ! 0)\<lparr>fs_Usage := None\<rparr>) (mem echoTree)"

definition echoNoUsageAt :: state where
  "echoNoUsageAt =
     putFlagSet 0 ((flagSets echoNoUsage ! 0)\<lparr>parsed := True, args := [''-x'']\<rparr>) echoNoUsage"



text \<open>A node as \<open>SubCommand\<close> makes it, and its flag set.\<close>

definition freshCommand :: "string \<Rightarrow> addr \<Rightarrow> addr \<Rightarrow> ('c, 'r) command" where
  "freshCommand nm fa c =
     \<lparr>name = nm, cmd_help = [], middlewares = [], handler = None, subCommands = [],
      flagSet = fa, parent = Some c\<rparr>"

definition freshFlagSet :: "string \<Rightarrow> addr \<Rightarrow> FlagSet" where
  "freshFlagSet nm a = (NewFlagSet nm ExitOnError)\<lparr>fs_Usage := Some a\<rparr>"

lemma SubCommand_Ok:
  assumes "deref (commands p) c = Some cmd"
  shows "SubCommand c nm p =
         Ok (length (commands p),
             \<lparr>commands =
                (commands p)[c := cmd\<lparr>subCommands :=
                                      AList.update nm (length (commands p)) (subCommands cmd)\<rparr>]
                @ [freshCommand nm (length (flagSets (mem p))) c],
              mem = (mem p)\<lparr>flagSets := flagSets (mem p)
                                @ [freshFlagSet nm (length (commands p))]\<rparr>\<rparr>)"
  using assms by (simp add: SubCommand_def Let_def freshCommand_def freshFlagSet_def)

lemma SubCommand_again:
  assumes c: "deref (commands p) c = Some cmd"
    and o: "map_of (subCommands cmd) nm = Some old" and v: "old < length (commands p)"
  shows "(case SubCommand c nm p of
            Ok (a, p') \<Rightarrow>
              a \<noteq> old \<and>
              deref (commands p') a = Some (freshCommand nm (length (flagSets (mem p))) c) \<and>
              deref (flagSets (mem p')) (length (flagSets (mem p))) = Some (freshFlagSet nm a) \<and>
              map_option (\<lambda>cmd'. map_of (subCommands cmd')) (deref (commands p') c)
                = Some ((map_of (subCommands cmd))(nm \<mapsto> a))
          | _ \<Rightarrow> False)"
proof -
  from c have l: "c < length (commands p)" by (simp add: deref_def split: if_splits)
  have 1: "length (commands p) \<noteq> old" using v by simp
  have 2: "deref ((commands p)[c := cmd\<lparr>subCommands :=
                                      AList.update nm (length (commands p)) (subCommands cmd)\<rparr>]
                @ [freshCommand nm (length (flagSets (mem p))) c]) (length (commands p))
           = Some (freshCommand nm (length (flagSets (mem p))) c)"
    by (simp add: deref_def nth_append)
  have 3: "deref (flagSets (mem p) @ [freshFlagSet nm (length (commands p))])
             (length (flagSets (mem p)))
           = Some (freshFlagSet nm (length (commands p)))"
    by (simp add: deref_def nth_append)
  have 4: "deref ((commands p)[c := cmd\<lparr>subCommands :=
                                      AList.update nm (length (commands p)) (subCommands cmd)\<rparr>]
                @ [freshCommand nm (length (flagSets (mem p))) c]) c
           = Some (cmd\<lparr>subCommands :=
                         AList.update nm (length (commands p)) (subCommands cmd)\<rparr>)"
    using l by (simp add: deref_def nth_append)
  show ?thesis
    unfolding SubCommand_Ok[OF c]
    by (simp add: 1 2 3 4 update_conv')
qed

text \<open>
  C9.  Where a command already has a child of that name, \<open>SubCommand\<close> succeeds without a
  word and returns a node that is not the earlier child: a fresh one, with no handler, no
  children, no middleware, no help text and a new, empty flag set; from then on the parent
  has the new node under that name, whatever had been set up on the earlier child, and its
  other children as before.
\<close>

theorem SubCommand_twice_replaces:
  assumes "deref (commands p) c = Some cmd"
    and "map_of (subCommands cmd) nm = Some old" and "old < length (commands p)"
  shows "(case SubCommand c nm p of
            Ok (a, p') \<Rightarrow>
              a \<noteq> old \<and>
              deref (commands p') a = Some (freshCommand nm (length (flagSets (mem p))) c) \<and>
              deref (flagSets (mem p')) (length (flagSets (mem p))) = Some (freshFlagSet nm a) \<and>
              map_option (\<lambda>cmd'. map_of (subCommands cmd')) (deref (commands p') c)
                = Some ((map_of (subCommands cmd))(nm \<mapsto> a))
          | _ \<Rightarrow> False)"
  using assms by (rule SubCommand_again)

text \<open>The echo program after a second \<open>root.SubCommand("echo")\<close>.\<close>

definition echoTwice :: "(unit, string list \<times> string option) program" where
  "echoTwice = built (SubCommand 0 ''echo'' echoTree)"

theorem SubCommand_twice_replaces_witness:
  "deref (commands echoTree) 0 = Some (commands echoTree ! 0)
   \<and> map_of (subCommands (commands echoTree ! 0)) ''echo'' = Some 1
   \<and> 1 < length (commands echoTree)
   \<and> handler (commands echoTree ! 1) \<noteq> None
   \<and> formal (flagSets (mem echoTree) ! 1) \<noteq> []
   \<and> map_of (subCommands (commands echoTwice ! 0)) ''echo'' = Some 2
   \<and> handler (commands echoTwice ! 2) = None
   \<and> formal (flagSets (mem echoTwice) ! 2) = []
   \<and> exitStatus (Execute exampleRuntime (commands echoTwice) 0 () [''echo'', ''echo'']
        (mem echoTwice)) = Some 0"
proof -
  have "0 < length (commands echoTree)" by code_simp
  then have c: "deref (commands echoTree) 0 = Some (commands echoTree ! 0)"
    by (simp add: deref_def)
  have o: "map_of (subCommands (commands echoTree ! 0)) ''echo'' = Some 1" by code_simp
  have v: "1 < length (commands echoTree)" by code_simp
  have h: "handler (commands echoTree ! 1) \<noteq> None" by code_simp
  have g: "formal (flagSets (mem echoTree) ! 1) \<noteq> []" by code_simp
  have l: "length (commands echoTree) = 2" by code_simp
  have lf: "length (flagSets (mem echoTree)) = 2" by code_simp
  from SubCommand_twice_replaces[OF c o v]
  obtain a p' where s: "SubCommand 0 ''echo'' echoTree = Ok (a, p')"
    and 1: "deref (commands p') a = Some (freshCommand ''echo'' (length (flagSets (mem echoTree))) 0)"
    and 2: "deref (flagSets (mem p')) (length (flagSets (mem echoTree))) = Some (freshFlagSet ''echo'' a)"
    and 3: "map_option (\<lambda>cmd'. map_of (subCommands cmd')) (deref (commands p') 0)
                = Some ((map_of (subCommands (commands echoTree ! 0)))(''echo'' \<mapsto> a))"
    by (cases "SubCommand 0 ''echo'' echoTree") auto
  from s SubCommand_Ok[OF c, of "''echo''"] l have a: "a = 2" by simp
  from s have p': "echoTwice = p'" by (simp add: echoTwice_def built_def)
  from 3 have m: "map_of (subCommands (commands echoTwice ! 0)) ''echo'' = Some 2"
    unfolding p' a by (auto simp: deref_def split: if_splits)
  from 1 have n: "handler (commands echoTwice ! 2) = None"
    unfolding p' a lf by (auto simp: deref_def freshCommand_def split: if_splits)
  from 2 have e: "formal (flagSets (mem echoTwice) ! 2) = []"
    unfolding p' a lf by (auto simp: deref_def freshFlagSet_def NewFlagSet_def split: if_splits)
  have x: "exitStatus (Execute exampleRuntime (commands echoTwice) 0 () [''echo'', ''echo'']
        (mem echoTwice)) = Some 0" by code_simp
  from c o v h g m n e x show ?thesis by (simp only: simp_thms)
qed

text \<open>
  What \<open>Var\<close> keeps true of a flag set: no name twice, each flag under its own name, the
  names free of a leading minus sign and of \<open>=\<close>, and each flag's value allocated.
\<close>

definition flagSetOk :: "FlagSet \<Rightarrow> Value list \<Rightarrow> bool" where
  "flagSetOk f vs \<longleftrightarrow>
     distinct (map fst (formal f)) \<and>
     list_all (\<lambda>(n, fl). Name fl = n \<and> take 1 n \<noteq> ''-'' \<and> CHR ''='' \<notin> set n
                          \<and> Value fl < length vs) (formal f)"

definition panicMessage :: "'a res \<Rightarrow> string option" where
  "panicMessage r = (case r of Panic m _ \<Rightarrow> Some m | _ \<Rightarrow> None)"

lemma panicMessage_res_bind:
  "panicMessage m = Some x \<Longrightarrow> panicMessage (res_bind m k) = Some x"
  by (cases m) (simp_all add: panicMessage_def)

lemma redefined_formal [simp]: "redefined (g\<lparr>formal := x\<rparr>) n = redefined g n"
  by (simp add: redefined_def)

lemma propagate_collision:
  assumes "deref (flagSets st) sub = Some g"
    and "list_all (\<lambda>fl. take 1 (Name fl) \<noteq> ''-'' \<and> CHR ''='' \<notin> set (Name fl)
                         \<and> Value fl < length (flagValues st)) fs"
    and "distinct (map Name fs)"
    and "find (\<lambda>fl. map_of (formal g) (Name fl) \<noteq> None) fs = Some x"
  shows "panicMessage (propagate rt sub fs st) = Some (redefined g (Name x))"
  using assms
proof (induction fs arbitrary: st g)
  case Nil
  then show ?case by simp
next
  case (Cons fl fs)
  from Cons.prems(2) have ok: "take 1 (Name fl) \<noteq> ''-''" "CHR ''='' \<notin> set (Name fl)"
    "Value fl < length (flagValues st)" by simp_all
  then have v: "deref (flagValues st) (Value fl) = Some (flagValues st ! Value fl)"
    by (simp add: deref_def)
  show ?case
  proof (cases "map_of (formal g) (Name fl) \<noteq> None")
    case True
    with Cons.prems(4) have "x = fl" by simp
    moreover from True Cons.prems(1) ok v
    have "Var rt sub (Value fl) (Name fl) (Usage fl) st
          = sprintf_panic g (redefined g (Name fl)) st"
      by (simp add: Var_def Let_def)
    ultimately show ?thesis by (simp add: panicMessage_def sprintf_panic_def)
  next
    case False
    let ?flag = "\<lparr>Name = Name fl, Usage = Usage fl, Value = Value fl,
                  DefValue = Value_String (flagValues st ! Value fl)\<rparr>"
    let ?g = "g\<lparr>formal := AList.update (Name fl) ?flag (formal g)\<rparr>"
    let ?st = "putFlagSet sub ?g st"
    from False Cons.prems(1) ok v
    have V: "Var rt sub (Value fl) (Name fl) (Usage fl) st = Ok ?st"
      by (simp add: Var_def Let_def)
    have g: "deref (flagSets ?st) sub = Some ?g"
      using Cons.prems(1) by (rule deref_putFlagSet_same)
    have l: "list_all (\<lambda>fl. take 1 (Name fl) \<noteq> ''-'' \<and> CHR ''='' \<notin> set (Name fl)
                         \<and> Value fl < length (flagValues ?st)) fs"
      using Cons.prems(2) by simp
    have d: "distinct (map Name fs)" using Cons.prems(3) by simp
    have "\<And>y. y \<in> set fs \<Longrightarrow>
            (map_of (formal ?g) (Name y) \<noteq> None) = (map_of (formal g) (Name y) \<noteq> None)"
    proof -
      fix y assume "y \<in> set fs"
      with Cons.prems(3) have "Name y \<noteq> Name fl" by (metis distinct.simps(2) image_eqI list.simps(9) set_map)
      then show "(map_of (formal ?g) (Name y) \<noteq> None) = (map_of (formal g) (Name y) \<noteq> None)"
        by (simp add: update_conv')
    qed
    then have "find (\<lambda>fl. map_of (formal ?g) (Name fl) \<noteq> None) fs
               = find (\<lambda>fl. map_of (formal g) (Name fl) \<noteq> None) fs"
      by (intro find_cong) simp_all
    with Cons.prems(4) False
    have f: "find (\<lambda>fl. map_of (formal ?g) (Name fl) \<noteq> None) fs = Some x" by simp
    from Cons.IH[OF g l d f] V show ?thesis by simp
  qed
qed

lemma VisitAll_set: "set (VisitAll f) = snd ` set (formal f)"
  by (simp add: VisitAll_def)

lemma flagSetOk_VisitAll:
  assumes "flagSetOk f vs"
  shows "list_all (\<lambda>fl. take 1 (Name fl) \<noteq> ''-'' \<and> CHR ''='' \<notin> set (Name fl)
                         \<and> Value fl < length vs) (VisitAll f)"
    and "distinct (map Name (VisitAll f))"
    and "\<And>n. n \<in> fst ` set (formal f) \<Longrightarrow> \<exists>fl\<in>set (VisitAll f). Name fl = n"
    and "\<And>fl. fl \<in> set (VisitAll f) \<Longrightarrow> Name fl \<in> fst ` set (formal f)"
proof -
  from assms have k: "\<And>n fl. (n, fl) \<in> set (formal f) \<Longrightarrow>
      Name fl = n \<and> take 1 n \<noteq> ''-'' \<and> CHR ''='' \<notin> set n \<and> Value fl < length vs"
    by (auto simp: flagSetOk_def list_all_iff)
  from assms have d: "distinct (map fst (formal f))" by (simp add: flagSetOk_def)
  show "list_all (\<lambda>fl. take 1 (Name fl) \<noteq> ''-'' \<and> CHR ''='' \<notin> set (Name fl)
                         \<and> Value fl < length vs) (VisitAll f)"
    unfolding list_all_iff VisitAll_set using k by fastforce
  have m: "map Name (VisitAll f) = map fst (sort_key fst (formal f))"
    unfolding VisitAll_def using k by (auto simp: comp_def)
  have "distinct (map fst (sort_key fst (formal f)))"
    using d by (simp add: distinct_map)
  with m show "distinct (map Name (VisitAll f))" by simp
  show "\<And>n. n \<in> fst ` set (formal f) \<Longrightarrow> \<exists>fl\<in>set (VisitAll f). Name fl = n"
    unfolding VisitAll_set using k by force
  show "\<And>fl. fl \<in> set (VisitAll f) \<Longrightarrow> Name fl \<in> fst ` set (formal f)"
    unfolding VisitAll_set using k by force
qed

lemma find_Some_ex:
  "\<exists>y\<in>set xs. P y \<Longrightarrow> \<exists>x. find P xs = Some x \<and> x \<in> set xs \<and> P x"
  by (induction xs) auto

lemma Execute_loop_Panic:
  "panicMessage (loopBody rt cs c as st) = Some m \<Longrightarrow>
   panicMessage (Execute_loop rt cs c as mws st) = Some m"
  by (subst Execute_loop.simps) (rule panicMessage_res_bind)

lemma duplicate_flag_panics:
  assumes a: "osArgs \<noteq> []"
    and w: "descends rt cs root (drop 1 osArgs) st c as st0"
    and c: "deref cs c = Some cmd"
    and p: "Parse rt cs (flagSet cmd) as st0 = Ok (None, st1)"
    and f: "deref (flagSets st1) (flagSet cmd) = Some f"
    and t: "args f = t # ts" and m: "map_of (subCommands cmd) t = Some d"
    and s: "deref cs d = Some sub" and g: "deref (flagSets st1) (flagSet sub) = Some g"
    and ok: "flagSetOk f (flagValues st1)"
    and n1: "nm \<in> fst ` set (formal f)" and n2: "nm \<in> fst ` set (formal g)"
  shows "\<exists>n. n \<in> fst ` set (formal f) \<and> n \<in> fst ` set (formal g) \<and>
             panicMessage (Execute rt cs root ctx osArgs st) = Some (redefined g n)"
proof -
  note v = flagSetOk_VisitAll[OF ok]
  from v(3)[OF n1] obtain fl where fl: "fl \<in> set (VisitAll f)" "Name fl = nm" by blast
  from n2 have "map_of (formal g) nm \<noteq> None"
    by (simp add: map_of_eq_None_iff)
  with fl have "\<exists>y\<in>set (VisitAll f). map_of (formal g) (Name y) \<noteq> None" by blast
  from find_Some_ex[OF this] obtain x where
    x: "find (\<lambda>fl. map_of (formal g) (Name fl) \<noteq> None) (VisitAll f) = Some x"
    "x \<in> set (VisitAll f)" "map_of (formal g) (Name x) \<noteq> None" by blast
  from propagate_collision[OF g v(1) v(2) x(1), of rt]
  have pr: "panicMessage (propagate rt (flagSet sub) (VisitAll f) st1)
            = Some (redefined g (Name x))" .
  have "loopBody rt cs c as st0 =
        res_bind (propagate rt (flagSet sub) (VisitAll f) st1)
          (\<lambda>st2. Ok (drop 1 (args f), Some d, st2))"
    using c p f t m s by (simp add: loopBody_def)
  with pr have "panicMessage (loopBody rt cs c as st0) = Some (redefined g (Name x))"
    by (simp add: panicMessage_res_bind)
  then have e: "\<And>mws. panicMessage (Execute_loop rt cs c as mws st0)
                 = Some (redefined g (Name x))"
    by (rule Execute_loop_Panic)
  from descends_start[OF w c] obtain r where r: "deref cs root = Some r" by blast
  from descends_Execute_loop[OF w, of "middlewares r"] obtain ms where
    l: "Execute_loop rt cs root (drop 1 osArgs) (middlewares r) st
        = Execute_loop rt cs c as (middlewares r @ ms) st0" by blast
  have "panicMessage (Execute rt cs root ctx osArgs st) = Some (redefined g (Name x))"
    unfolding Execute_loop_of[OF a r] l using e by (rule panicMessage_res_bind)
  moreover from v(4)[OF x(2)] have "Name x \<in> fst ` set (formal f)" .
  moreover from x(3) have "Name x \<in> fst ` set (formal g)"
    by (simp add: map_of_eq_None_iff)
  ultimately show ?thesis by blast
qed

text \<open>
  C8.  The walk is at a node whose flag set has parsed, and the first argument left names a
  child.  If the child's flag set already declares a name that the node's flag set (well
  formed, as \<open>Var\<close> leaves it) holds as well, \<open>Execute\<close> panics in the registration of such a
  name in the child's flag set, with the message of \<open>Var\<close> for a flag that is redefined.
\<close>

theorem duplicate_flag_name_panics:
  assumes "osArgs \<noteq> []"
    and "descends rt cs root (drop 1 osArgs) st c as st0"
    and "deref cs c = Some cmd"
    and "Parse rt cs (flagSet cmd) as st0 = Ok (None, st1)"
    and "deref (flagSets st1) (flagSet cmd) = Some f"
    and "args f = t # ts" and "map_of (subCommands cmd) t = Some d"
    and "deref cs d = Some sub" and "deref (flagSets st1) (flagSet sub) = Some g"
    and "flagSetOk f (flagValues st1)"
    and "nm \<in> fst ` set (formal f)" and "nm \<in> fst ` set (formal g)"
  shows "\<exists>n. n \<in> fst ` set (formal f) \<and> n \<in> fst ` set (formal g) \<and>
             panicMessage (Execute rt cs root ctx osArgs st) = Some (redefined g n)"
  using assms by (rule duplicate_flag_panics)

text \<open>
  A program whose subcommand declares the flag \<open>verbose\<close> that its root declares too.
\<close>

definition clashMain ::
  "string list \<Rightarrow> (addr \<times> (unit, string list \<times> string option) program) res" where
  "clashMain osArgs =
     res_bind (Root osArgs (startup (hd osArgs))) (\<lambda>(root, p).
     res_bind (Flags root (FlagSet_Bool exampleRuntime ''verbose'' False ''Enable verbose output'') p) (\<lambda>(_, p).
     res_bind (SubCommand root ''echo'' p) (\<lambda>(echo, p).
     res_bind (Action echo (Some EchoHandler) p) (\<lambda>(_, p).
     res_bind (Flags echo (FlagSet_String exampleRuntime ''verbose'' [] ''Level of detail'') p) (\<lambda>(_, p).
     Ok (root, p))))))"

definition clashTree :: "(unit, string list \<times> string option) program" where
  "clashTree = built (clashMain [''clash''])"

definition clashParsed :: state where
  "clashParsed =
     (case Parse exampleRuntime (commands clashTree) 0 [''echo''] (mem clashTree) of
        Ok (_, s) \<Rightarrow> s | _ \<Rightarrow> mem clashTree)"

theorem duplicate_flag_name_panics_witness:
  "[''clash'', ''echo''] \<noteq> []
   \<and> descends exampleRuntime (commands clashTree) 0 (drop 1 [''clash'', ''echo''])
        (mem clashTree) 0 [''echo''] (mem clashTree)
   \<and> deref (commands clashTree) 0 = Some (commands clashTree ! 0)
   \<and> Parse exampleRuntime (commands clashTree) (flagSet (commands clashTree ! 0)) [''echo'']
        (mem clashTree) = Ok (None, clashParsed)
   \<and> deref (flagSets clashParsed) (flagSet (commands clashTree ! 0))
       = Some (flagSets clashParsed ! 0)
   \<and> args (flagSets clashParsed ! 0) = ''echo'' # []
   \<and> map_of (subCommands (commands clashTree ! 0)) ''echo'' = Some 1
   \<and> deref (commands clashTree) 1 = Some (commands clashTree ! 1)
   \<and> deref (flagSets clashParsed) (flagSet (commands clashTree ! 1))
       = Some (flagSets clashParsed ! 1)
   \<and> flagSetOk (flagSets clashParsed ! 0) (flagValues clashParsed)
   \<and> ''verbose'' \<in> fst ` set (formal (flagSets clashParsed ! 0))
   \<and> ''verbose'' \<in> fst ` set (formal (flagSets clashParsed ! 1))
   \<and> panicMessage (Execute exampleRuntime (commands clashTree) 0 () [''clash'', ''echo'']
        (mem clashTree)) = Some ''echo flag redefined: verbose''"
proof -
  have a: "[''clash'', ''echo''] \<noteq> []" by simp
  have w: "descends exampleRuntime (commands clashTree) 0 (drop 1 [''clash'', ''echo''])
        (mem clashTree) 0 [''echo''] (mem clashTree)"
    by (simp add: descends.arrived)
  have l: "0 < length (commands clashTree)" "1 < length (commands clashTree)" by code_simp+
  then have c: "deref (commands clashTree) 0 = Some (commands clashTree ! 0)"
    and s: "deref (commands clashTree) 1 = Some (commands clashTree ! 1)"
    by (simp_all add: deref_def)
  have p: "Parse exampleRuntime (commands clashTree) (flagSet (commands clashTree ! 0)) [''echo'']
        (mem clashTree) = Ok (None, clashParsed)" by code_simp
  have f: "deref (flagSets clashParsed) (flagSet (commands clashTree ! 0))
       = Some (flagSets clashParsed ! 0)" by code_simp
  have t: "args (flagSets clashParsed ! 0) = ''echo'' # []" by code_simp
  have m: "map_of (subCommands (commands clashTree ! 0)) ''echo'' = Some 1" by code_simp
  have g: "deref (flagSets clashParsed) (flagSet (commands clashTree ! 1))
       = Some (flagSets clashParsed ! 1)" by code_simp
  have ok: "flagSetOk (flagSets clashParsed ! 0) (flagValues clashParsed)" by code_simp
  have n1: "''verbose'' \<in> fst ` set (formal (flagSets clashParsed ! 0))" by code_simp
  have n2: "''verbose'' \<in> fst ` set (formal (flagSets clashParsed ! 1))" by code_simp
  have only: "list_all (\<lambda>n. n = ''verbose'') (map fst (formal (flagSets clashParsed ! 0)))"
    by code_simp
  have r: "redefined (flagSets clashParsed ! 1) ''verbose'' = ''echo flag redefined: verbose''"
    by code_simp
  from duplicate_flag_name_panics[OF a w c p f t m s g ok n1 n2, of "()"]
  obtain n where "n \<in> fst ` set (formal (flagSets clashParsed ! 0))"
    and x: "panicMessage (Execute exampleRuntime (commands clashTree) 0 () [''clash'', ''echo'']
        (mem clashTree)) = Some (redefined (flagSets clashParsed ! 1) n)" by blast
  with only have "n = ''verbose''" by (auto simp: list_all_iff)
  with x r have "panicMessage (Execute exampleRuntime (commands clashTree) 0 ()
        [''clash'', ''echo''] (mem clashTree)) = Some ''echo flag redefined: verbose''"
    by simp
  with a w c p f t m s g ok n1 n2 show ?thesis by (simp only: simp_thms)
qed

section \<open>Flags along the path\<close>

text \<open>
  The flags that the flag set at an address declares (\<open>f.formal\<close>), the flag it holds for
  a name, and the flag set of a node.  A state is in order when every flag of every flag
  set is filed under its own name, a name that \<open>Var\<close> accepts, and points to a value in
  memory.
\<close>

definition formalAt :: "state \<Rightarrow> addr \<Rightarrow> (string \<times> Flag) list" where
  "formalAt st a = (case deref (flagSets st) a of None \<Rightarrow> [] | Some f \<Rightarrow> formal f)"

definition flagAt :: "state \<Rightarrow> addr \<Rightarrow> string \<Rightarrow> Flag option" where
  "flagAt st a n = map_of (formalAt st a) n"

definition flagSetOf :: "('c, 'r) command list \<Rightarrow> addr \<Rightarrow> addr" where
  "flagSetOf cs c = (case deref cs c of None \<Rightarrow> 0 | Some cmd \<Rightarrow> flagSet cmd)"

definition stateOk :: "state \<Rightarrow> bool" where
  "stateOk st \<longleftrightarrow> list_all (\<lambda>f. flagSetOk f (flagValues st)) (flagSets st)"

text \<open>What parsing keeps: the declared flags of every flag set, and how many values there are.\<close>

definition formalsKept :: "state \<Rightarrow> state \<Rightarrow> bool" where
  "formalsKept st st' \<longleftrightarrow>
     length (flagSets st') = length (flagSets st) \<and>
     length (flagValues st') = length (flagValues st) \<and>
     (\<forall>a. formalAt st' a = formalAt st a)"

lemma formalsKept_refl [simp]: "formalsKept st st"
  by (simp add: formalsKept_def)

lemma formalsKept_trans: "formalsKept a b \<Longrightarrow> formalsKept b c \<Longrightarrow> formalsKept a c"
  by (simp add: formalsKept_def)

lemma sameButOutput_formalsKept: "sameButOutput st st' \<Longrightarrow> formalsKept st st'"
  unfolding sameButOutput_def formalsKept_def formalAt_def deref_def
  apply (intro conjI allI)
    apply simp
   apply simp
  subgoal for a
    apply (cases "a < length (flagSets st)")
     apply (elim conjE)
     apply (drule spec[of _ a])
     apply auto
    done
  done

lemma formalAt_putFlagSet:
  "formalAt (putFlagSet fa g st) a =
     (if a = fa \<and> fa < length (flagSets st) then formal g else formalAt st a)"
  by (auto simp: formalAt_def putFlagSet_def deref_def)

lemma formalsKept_put:
  "deref (flagSets st) fa = Some f \<Longrightarrow> formal g = formal f \<Longrightarrow>
   formalsKept st (putFlagSet fa g st)"
  by (auto simp: formalsKept_def formalAt_putFlagSet)
     (auto simp: formalAt_def putFlagSet_def deref_def split: if_splits)

lemma formalsKept_setFlag:
  "deref (flagSets st) fa = Some f \<Longrightarrow> formal g = formal f \<Longrightarrow>
   formalsKept st (setFlag fa nm flag v g st')  \<longleftrightarrow> formalsKept st (putFlagSet fa g st')"
  by (simp add: setFlag_def formalsKept_def formalAt_def putFlagSet_def)

lemma failf_formalsKept: "failf rt cs fa msg st = Ok (e, st') \<Longrightarrow> formalsKept st st'"
  by (auto dest!: failf_same sameButOutput_formalsKept)

lemma fs_usage_formalsKept: "fs_usage rt cs fa st = Ok st' \<Longrightarrow> formalsKept st st'"
  by (auto dest!: fs_usage_same sameButOutput_formalsKept)

lemma parseOne_formalsKept:
  assumes "parseOne rt cs fa st = Ok (seen, e, st')"
  shows "formalsKept st st'"
proof -
  from assms obtain f where f: "deref (flagSets st) fa = Some f"
    by (cases "deref (flagSets st) fa") (simp_all add: parseOne_def)
  have put: "\<And>g. formal g = formal f \<Longrightarrow> formalsKept st (putFlagSet fa g st)"
    using f by (rule formalsKept_put)
  have put2: "\<And>g h. formal g = formal f \<Longrightarrow> formal h = formal f \<Longrightarrow>
      formalsKept st (putFlagSet fa h (putFlagSet fa g st))"
    by (simp add: put)
  have via: "\<And>x msg r s.
      failf rt cs fa msg (putFlagSet fa (f\<lparr>args := x\<rparr>) st) = Ok (r, s) \<Longrightarrow> formalsKept st s"
    by (rule formalsKept_trans[OF put failf_formalsKept]) simp_all
  have via2: "\<And>x s.
      fs_usage rt cs fa (putFlagSet fa (f\<lparr>args := x\<rparr>) st) = Ok s \<Longrightarrow> formalsKept st s"
    by (rule formalsKept_trans[OF put fs_usage_formalsKept]) simp_all
  have set1: "\<And>g nm flag v. formal g = formal f \<Longrightarrow>
      formalsKept st (setFlag fa nm flag v g (putFlagSet fa g st))"
    using f by (auto simp: setFlag_def formalsKept_def formalAt_def putFlagSet_def deref_def
        nth_list_update split: if_splits)
  have set2: "\<And>g h nm flag v. formal g = formal f \<Longrightarrow> formal h = formal f \<Longrightarrow>
      formalsKept st (setFlag fa nm flag v h (putFlagSet fa h (putFlagSet fa g st)))"
    using f by (auto simp: setFlag_def formalsKept_def formalAt_def putFlagSet_def deref_def
        nth_list_update split: if_splits)
  from assms f show ?thesis
    unfolding parseOne_def Let_def
    by (auto split: list.splits if_splits prod.splits sum.splits option.splits
        simp: res_bind_Ok_iff put put2 set1 set2
        dest: failf_formalsKept via via2)
qed

lemma Parse_loop_formalsKept:
  "Parse_loop rt cs fa st = Ok (e, st') \<Longrightarrow> formalsKept st st'"
proof (induction rt cs fa st rule: Parse_loop.induct)
  case (1 rt cs fa st)
  from "1.prems" show ?case
  proof (cases rule: Parse_loop_Ok_cases)
    case (again st1)
    from "1.IH"[OF again(1) refl refl] again show ?thesis
      by (auto dest!: parseOne_formalsKept intro: formalsKept_trans)
  next
    case stop
    then show ?thesis by (rule parseOne_formalsKept)
  qed
qed

lemma Parse_formalsKept:
  assumes "Parse rt cs fa as st = Ok (e, st')"
  shows "formalsKept st st'"
proof -
  from assms obtain f where f: "deref (flagSets st) fa = Some f"
    by (cases "deref (flagSets st) fa") (simp_all add: Parse_def)
  with assms have "Parse_loop rt cs fa (putFlagSet fa (f\<lparr>parsed := True, args := as\<rparr>) st)
                   = Ok (e, st')" by (simp add: Parse_def)
  from Parse_loop_formalsKept[OF this] formalsKept_put[OF f, of "f\<lparr>parsed := True, args := as\<rparr>"]
  show ?thesis by (auto intro: formalsKept_trans)
qed

lemma update_absent: "map_of al k = None \<Longrightarrow> AList.update k v al = al @ [(k, v)]"
  by (induction al) (auto split: if_splits)

lemma Var_Ok:
  assumes "Var rt fa v nm usg st = Ok st'"
  obtains f val where "deref (flagSets st) fa = Some f" "deref (flagValues st) v = Some val"
    "map_of (formal f) nm = None" "take 1 nm \<noteq> ''-''" "CHR ''='' \<notin> set nm"
    "st' = putFlagSet fa
             (f\<lparr>formal := formal f @ [(nm, \<lparr>Name = nm, Usage = usg, Value = v,
                                           DefValue = Value_String val\<rparr>)]\<rparr>) st"
proof -
  from assms obtain f where f: "deref (flagSets st) fa = Some f"
    by (cases "deref (flagSets st) fa") (simp_all add: Var_def)
  from assms f have n: "take 1 nm \<noteq> ''-''" "CHR ''='' \<notin> set nm"
    by (auto simp: Var_def sprintf_panic_def split: if_splits)
  from assms f n obtain val where val: "deref (flagValues st) v = Some val"
    by (cases "deref (flagValues st) v") (simp_all add: Var_def)
  from assms f n val have m: "map_of (formal f) nm = None"
    by (auto simp: Var_def Let_def sprintf_panic_def split: if_splits)
  from assms f n val m have "st' = putFlagSet fa
             (f\<lparr>formal := formal f @ [(nm, \<lparr>Name = nm, Usage = usg, Value = v,
                                           DefValue = Value_String val\<rparr>)]\<rparr>) st"
    by (simp add: Var_def Let_def update_absent)
  with f val m n show thesis by (rule that)
qed

lemma flagSetOk_cong:
  "formal g = formal f \<Longrightarrow> length ws = length vs \<Longrightarrow> flagSetOk g ws = flagSetOk f vs"
  by (simp add: flagSetOk_def)

lemma stateOk_nth:
  "stateOk st \<longleftrightarrow> (\<forall>a<length (flagSets st). flagSetOk (flagSets st ! a) (flagValues st))"
  by (simp add: stateOk_def list_all_length)

lemma formalAt_nth: "a < length (flagSets st) \<Longrightarrow> formalAt st a = formal (flagSets st ! a)"
  by (simp add: formalAt_def deref_def)

lemma formalsKept_stateOk:
  assumes "formalsKept st st'" and "stateOk st"
  shows "stateOk st'"
  unfolding stateOk_nth
proof (intro allI impI)
  fix a assume a: "a < length (flagSets st')"
  with assms(1) have a': "a < length (flagSets st)" by (simp add: formalsKept_def)
  from assms(1) have "formalAt st' a = formalAt st a" by (simp add: formalsKept_def)
  with a a' have "formal (flagSets st' ! a) = formal (flagSets st ! a)"
    by (simp add: formalAt_nth)
  moreover from assms(1) have "length (flagValues st') = length (flagValues st)"
    by (simp add: formalsKept_def)
  moreover from assms(2) a' have "flagSetOk (flagSets st ! a) (flagValues st)"
    by (simp add: stateOk_nth)
  ultimately show "flagSetOk (flagSets st' ! a) (flagValues st')"
    by (simp add: flagSetOk_def)
qed

lemma formalsKept_flagAt: "formalsKept st st' \<Longrightarrow> flagAt st' a n = flagAt st a n"
  by (simp add: formalsKept_def flagAt_def)

lemma map_of_snoc:
  "map_of (al @ [(k, v)]) n =
     (case map_of al n of Some x \<Rightarrow> Some x | None \<Rightarrow> if n = k then Some v else None)"
  by (induction al) auto

lemma flagSetOk_snoc:
  assumes "flagSetOk f vs" and "map_of (formal f) nm = None"
    and "take 1 nm \<noteq> ''-''" and "CHR ''='' \<notin> set nm" and "v < length vs"
  shows "flagSetOk (f\<lparr>formal := formal f @ [(nm, \<lparr>Name = nm, Usage = usg,
            Value = v, DefValue = dv\<rparr>)]\<rparr>) vs"
proof -
  from assms(2) have "nm \<notin> fst ` set (formal f)" by (simp add: map_of_eq_None_iff)
  with assms(1) have d: "distinct (map fst (formal f @ [(nm, \<lparr>Name = nm, Usage = usg,
            Value = v, DefValue = dv\<rparr>)]))"
    by (simp add: flagSetOk_def)
  from assms(1,3,4,5) have
    "list_all (\<lambda>(n, fl). Name fl = n \<and> take 1 n \<noteq> ''-'' \<and> CHR ''='' \<notin> set n
                          \<and> Value fl < length vs)
       (formal f @ [(nm, \<lparr>Name = nm, Usage = usg, Value = v, DefValue = dv\<rparr>)])"
    by (simp add: flagSetOk_def)
  with d show ?thesis by (simp add: flagSetOk_def)
qed

lemma Var_formalAt:
  assumes "Var rt fa v nm usg st = Ok st'"
  obtains fl where "Value fl = v" "Name fl = nm" "map_of (formalAt st fa) nm = None"
    "\<forall>a. formalAt st' a = (if a = fa then formalAt st fa @ [(nm, fl)] else formalAt st a)"
proof -
  from assms obtain f val where f: "deref (flagSets st) fa = Some f"
    and m: "map_of (formal f) nm = None"
    and st': "st' = putFlagSet fa
             (f\<lparr>formal := formal f @ [(nm, \<lparr>Name = nm, Usage = usg, Value = v,
                                           DefValue = Value_String val\<rparr>)]\<rparr>) st"
    by (rule Var_Ok)
  let ?flag = "\<lparr>Name = nm, Usage = usg, Value = v, DefValue = Value_String val\<rparr>"
  from f have l: "fa < length (flagSets st)" by (simp add: deref_def split: if_splits)
  have ff: "formalAt st fa = formal f" using f by (simp add: formalAt_def)
  have "\<forall>a. formalAt st' a
          = (if a = fa then formalAt st fa @ [(nm, ?flag)] else formalAt st a)"
    by (simp add: st' formalAt_putFlagSet ff l)
  moreover have "Value ?flag = v" "Name ?flag = nm" by simp_all
  moreover have "map_of (formalAt st fa) nm = None" using m ff by simp
  ultimately show thesis by (rule that[rotated 3])
qed

lemma Var_flags:
  assumes "Var rt fa v nm usg st = Ok st'"
  shows "flagAt st fa nm = None"
    and "\<exists>fl. flagAt st' fa nm = Some fl \<and> Value fl = v \<and> Name fl = nm"
    and "\<And>a n. a \<noteq> fa \<or> n \<noteq> nm \<Longrightarrow> flagAt st' a n = flagAt st a n"
proof -
  from assms obtain fl where fl: "Value fl = v" "Name fl = nm"
    and m: "map_of (formalAt st fa) nm = None"
    and at': "\<forall>a. formalAt st' a
                = (if a = fa then formalAt st fa @ [(nm, fl)] else formalAt st a)"
    by (rule Var_formalAt)
  from at' have at: "\<And>a. formalAt st' a
                = (if a = fa then formalAt st fa @ [(nm, fl)] else formalAt st a)" by blast
  from m show "flagAt st fa nm = None" by (simp add: flagAt_def)
  have "flagAt st' fa nm = Some fl"
    using m by (simp add: flagAt_def at map_of_snoc del: map_of_append)
  with fl show "\<exists>fl. flagAt st' fa nm = Some fl \<and> Value fl = v \<and> Name fl = nm" by simp
  show "flagAt st' a n = flagAt st a n" if "a \<noteq> fa \<or> n \<noteq> nm" for a n
    using that by (auto simp: flagAt_def at map_of_snoc simp del: map_of_append split: option.splits)
qed

lemma Var_flagValues: "Var rt fa v nm usg st = Ok st' \<Longrightarrow> flagValues st' = flagValues st"
  by (erule Var_Ok) simp

lemma Var_stateOk:
  assumes "Var rt fa v nm usg st = Ok st'" and ok: "stateOk st"
  shows "stateOk st'"
proof -
  from assms(1) obtain f val where f: "deref (flagSets st) fa = Some f"
    and val: "deref (flagValues st) v = Some val"
    and m: "map_of (formal f) nm = None" and n: "take 1 nm \<noteq> ''-''" "CHR ''='' \<notin> set nm"
    and st': "st' = putFlagSet fa
             (f\<lparr>formal := formal f @ [(nm, \<lparr>Name = nm, Usage = usg, Value = v,
                                           DefValue = Value_String val\<rparr>)]\<rparr>) st"
    by (rule Var_Ok)
  let ?g = "f\<lparr>formal := formal f @ [(nm, \<lparr>Name = nm, Usage = usg, Value = v,
                                           DefValue = Value_String val\<rparr>)]\<rparr>"
  from f have l: "fa < length (flagSets st)" and fe: "flagSets st ! fa = f"
    by (simp_all add: deref_def split: if_splits)
  have vs: "flagValues st' = flagValues st" by (simp only: st' flagValues_putFlagSet)
  have fs: "flagSets st' = (flagSets st)[fa := ?g]"
    by (simp add: st' putFlagSet_def)
  from ok l have "flagSetOk (flagSets st ! fa) (flagValues st)"
    unfolding stateOk_nth by blast
  then have o: "flagSetOk f (flagValues st)" by (simp only: fe)
  from val have "v < length (flagValues st)" by (simp add: deref_def split: if_splits)
  from flagSetOk_snoc[OF o m n this] have g: "flagSetOk ?g (flagValues st)" .
  show ?thesis
    unfolding stateOk_nth vs fs
  proof (intro allI impI)
    fix a assume "a < length ((flagSets st)[fa := ?g])"
    then have a: "a < length (flagSets st)" by simp
    show "flagSetOk ((flagSets st)[fa := ?g] ! a) (flagValues st)"
    proof (cases "a = fa")
      case True
      with l g show ?thesis by simp
    next
      case False
      from ok a have "flagSetOk (flagSets st ! a) (flagValues st)"
        unfolding stateOk_nth by blast
      with False show ?thesis by simp
    qed
  qed
qed

lemma propagate_flags:
  assumes "propagate rt sub fs st = Ok st'"
  shows "(\<forall>a n. flagAt st a n \<noteq> None \<longrightarrow> flagAt st' a n = flagAt st a n) \<and>
         (\<forall>a n. a \<noteq> sub \<longrightarrow> flagAt st' a n = flagAt st a n) \<and>
         (\<forall>x\<in>set fs. \<exists>fl. flagAt st' sub (Name x) = Some fl \<and> Value fl = Value x) \<and>
         (\<forall>n. flagAt st' sub n \<noteq> None \<longrightarrow> flagAt st sub n \<noteq> None \<or> n \<in> Name ` set fs) \<and>
         flagValues st' = flagValues st \<and>
         (stateOk st \<longrightarrow> stateOk st')"
  using assms
proof (induction fs arbitrary: st)
  case Nil
  then show ?case by simp
next
  case (Cons x fs)
  from Cons.prems obtain st1 where v: "Var rt sub (Value x) (Name x) (Usage x) st = Ok st1"
    and p: "propagate rt sub fs st1 = Ok st'"
    by (auto simp: res_bind_Ok_iff)
  note V = Var_flags[OF v] Var_flagValues[OF v] Var_stateOk[OF v]
  note IH = Cons.IH[OF p]
  have 1: "\<forall>a n. flagAt st a n \<noteq> None \<longrightarrow> flagAt st' a n = flagAt st a n"
  proof (intro allI impI)
    fix a n assume h: "flagAt st a n \<noteq> None"
    with V(1) have "a \<noteq> sub \<or> n \<noteq> Name x" by auto
    from V(3)[OF this] have e: "flagAt st1 a n = flagAt st a n" .
    with h IH show "flagAt st' a n = flagAt st a n" by simp
  qed
  have 2: "\<forall>a n. a \<noteq> sub \<longrightarrow> flagAt st' a n = flagAt st a n"
    using V(3) IH by simp
  have 3: "\<forall>y\<in>set (x # fs). \<exists>fl. flagAt st' sub (Name y) = Some fl \<and> Value fl = Value y"
  proof
    fix y assume "y \<in> set (x # fs)"
    then consider "y = x" | "y \<in> set fs" by auto
    then show "\<exists>fl. flagAt st' sub (Name y) = Some fl \<and> Value fl = Value y"
    proof cases
      case 1
      from V(2) obtain fl where fl: "flagAt st1 sub (Name x) = Some fl" "Value fl = Value x"
        by blast
      then have "flagAt st1 sub (Name x) \<noteq> None" by simp
      with IH have "flagAt st' sub (Name x) = flagAt st1 sub (Name x)" by blast
      with fl 1 show ?thesis by simp
    next
      case 2
      with IH show ?thesis by blast
    qed
  qed
  have 4: "\<forall>n. flagAt st' sub n \<noteq> None \<longrightarrow>
             flagAt st sub n \<noteq> None \<or> n \<in> Name ` set (x # fs)"
  proof (intro allI impI)
    fix n assume "flagAt st' sub n \<noteq> None"
    with IH have "flagAt st1 sub n \<noteq> None \<or> n \<in> Name ` set fs" by blast
    then show "flagAt st sub n \<noteq> None \<or> n \<in> Name ` set (x # fs)"
    proof
      assume h: "flagAt st1 sub n \<noteq> None"
      show ?thesis
      proof (cases "n = Name x")
        case True
        then show ?thesis by simp
      next
        case False
        then have "flagAt st1 sub n = flagAt st sub n" using V(3) by blast
        with h show ?thesis by simp
      qed
    next
      assume "n \<in> Name ` set fs"
      then show ?thesis by auto
    qed
  qed
  have 5: "flagValues st' = flagValues st" using V(4) IH by simp
  have 6: "stateOk st \<longrightarrow> stateOk st'" using V(5) IH by blast
  from 1 2 3 4 5 6 show ?case by blast
qed

text \<open>
  A flag set inherits from another when it has every flag of the other under the same
  name, pointing to the same value.
\<close>

definition inherits :: "state \<Rightarrow> addr \<Rightarrow> addr \<Rightarrow> bool" where
  "inherits st a b \<longleftrightarrow>
     (\<forall>n fl. flagAt st a n = Some fl \<longrightarrow> (\<exists>fl'. flagAt st b n = Some fl' \<and> Value fl' = Value fl))"

lemma inherits_refl: "inherits st a a"
  by (simp add: inherits_def)

lemma inherits_trans: "inherits st a b \<Longrightarrow> inherits st b c \<Longrightarrow> inherits st a c"
  unfolding inherits_def by metis

lemma flagSetOf_Some: "deref cs c = Some cmd \<Longrightarrow> flagSetOf cs c = flagSet cmd"
  by (simp add: flagSetOf_def)

lemma flagAt_Some_formal:
  assumes "deref (flagSets st) a = Some f" and "flagAt st a n = Some fl"
  shows "(n, fl) \<in> set (formal f)"
  using assms by (simp add: flagAt_def formalAt_def map_of_SomeD)

lemma stateOk_deref:
  assumes "stateOk st" and "deref (flagSets st) a = Some f"
  shows "flagSetOk f (flagValues st)"
proof -
  from assms(2) have "a < length (flagSets st)" "flagSets st ! a = f"
    by (simp_all add: deref_def split: if_splits)
  with assms(1) show ?thesis unfolding stateOk_nth by blast
qed

lemma flagSetOk_entry:
  assumes "flagSetOk f vs" and "(n, fl) \<in> set (formal f)"
  shows "Name fl = n" and "take 1 n \<noteq> ''-''" and "CHR ''='' \<notin> set n" and "Value fl < length vs"
  using assms by (auto simp: flagSetOk_def list_all_iff)

text \<open>
  What the walk along a path has brought about: the state is in order; the flag sets off
  the path and that of the first node are as they were; each node's flag set inherits
  from the one before it; and every flag now on the path was declared on the path before.
\<close>

definition pathInvariant ::
  "('c, 'r) command list \<Rightarrow> state \<Rightarrow> addr list \<Rightarrow> state \<Rightarrow> bool" where
  "pathInvariant cs st path st' \<longleftrightarrow>
     stateOk st' \<and>
     (\<forall>a n. a \<notin> flagSetOf cs ` set path \<longrightarrow> flagAt st' a n = flagAt st a n) \<and>
     (\<forall>n. flagAt st' (flagSetOf cs (hd path)) n = flagAt st (flagSetOf cs (hd path)) n) \<and>
     (\<forall>i. Suc i < length path \<longrightarrow>
          inherits st' (flagSetOf cs (path ! i)) (flagSetOf cs (path ! Suc i))) \<and>
     (\<forall>a\<in>flagSetOf cs ` set path. \<forall>n. flagAt st' a n \<noteq> None \<longrightarrow>
          (\<exists>b\<in>flagSetOf cs ` set path. flagAt st b n \<noteq> None))"

lemma pathInvariant_single:
  assumes "formalsKept st st1" and "stateOk st"
  shows "pathInvariant cs st [c] st1"
  unfolding pathInvariant_def
  using formalsKept_stateOk[OF assms] formalsKept_flagAt[OF assms(1)]
  by simp

lemma pathInvariant_step:
  assumes c: "deref cs c = Some cmd"
    and K: "formalsKept st st1"
    and f: "deref (flagSets st1) (flagSet cmd) = Some f"
    and s: "deref cs d = Some sub"
    and P: "propagate rt (flagSet sub) (VisitAll f) st1 = Ok st2"
    and hd: "path \<noteq> []" "hd path = d"
    and dist: "distinct (map (flagSetOf cs) (c # path))"
    and ok: "stateOk st"
    and IH: "pathInvariant cs st2 path st'"
  shows "pathInvariant cs st (c # path) st'"
proof -
  let ?F = "flagSetOf cs"
  have Fc: "?F c = flagSet cmd" using c by (rule flagSetOf_Some)
  have Fd: "?F d = flagSet sub" using s by (rule flagSetOf_Some)
  from hd have dp: "d \<in> set path" by (cases path) auto
  then have Fdp: "?F d \<in> ?F ` set path" by simp
  from dist have Fcp: "?F c \<notin> ?F ` set path" by simp
  with Fdp have ne: "?F c \<noteq> ?F d" by auto
  have k: "\<And>a n. flagAt st1 a n = flagAt st a n" using K by (rule formalsKept_flagAt)
  have ok1: "stateOk st1" using K ok by (rule formalsKept_stateOk)
  note Pf = propagate_flags[OF P, unfolded Fd[symmetric]]
  from Pf ok1 have ok2: "stateOk st2" by blast
  from Pf have P2: "\<And>a n. a \<noteq> ?F d \<Longrightarrow> flagAt st2 a n = flagAt st1 a n" by blast
  from Pf have P3: "\<And>x. x \<in> set (VisitAll f) \<Longrightarrow>
      \<exists>fl. flagAt st2 (?F d) (Name x) = Some fl \<and> Value fl = Value x" by blast
  from Pf have P4: "\<And>n. flagAt st2 (?F d) n \<noteq> None \<Longrightarrow>
      flagAt st1 (?F d) n \<noteq> None \<or> n \<in> Name ` set (VisitAll f)" by blast
  from IH have I1: "stateOk st'"
    and I2: "\<And>a n. a \<notin> ?F ` set path \<Longrightarrow> flagAt st' a n = flagAt st2 a n"
    and I3: "\<And>n. flagAt st' (?F d) n = flagAt st2 (?F d) n"
    and I4: "\<And>i. Suc i < length path \<Longrightarrow> inherits st' (?F (path ! i)) (?F (path ! Suc i))"
    and I5: "\<And>a n. a \<in> ?F ` set path \<Longrightarrow> flagAt st' a n \<noteq> None \<Longrightarrow>
               \<exists>b\<in>?F ` set path. flagAt st2 b n \<noteq> None"
    unfolding pathInvariant_def hd(2) by blast+
  note fok = stateOk_deref[OF ok1 f]
  have G3: "\<And>n. flagAt st' (?F c) n = flagAt st (?F c) n"
    using I2[OF Fcp] P2[OF ne] k by simp
  have G2: "\<And>a n. a \<notin> ?F ` set (c # path) \<Longrightarrow> flagAt st' a n = flagAt st a n"
  proof -
    fix a n assume a: "a \<notin> ?F ` set (c # path)"
    then have "a \<notin> ?F ` set path" by simp
    moreover from this Fdp have "a \<noteq> ?F d" by auto
    ultimately show "flagAt st' a n = flagAt st a n" using I2 P2 k by simp
  qed
  have G40: "inherits st' (?F c) (?F d)"
    unfolding inherits_def
  proof (intro allI impI)
    fix n fl assume "flagAt st' (?F c) n = Some fl"
    with G3 k have "flagAt st1 (flagSet cmd) n = Some fl" by (simp add: Fc)
    from flagAt_Some_formal[OF f this] have m: "(n, fl) \<in> set (formal f)" .
    from flagSetOk_entry(1)[OF fok m] have nm: "Name fl = n" .
    from m have "fl \<in> set (VisitAll f)" by (force simp: VisitAll_set)
    from P3[OF this] nm I3
    show "\<exists>fl'. flagAt st' (?F d) n = Some fl' \<and> Value fl' = Value fl" by simp
  qed
  have G4: "\<And>i. Suc i < length (c # path) \<Longrightarrow>
      inherits st' (?F ((c # path) ! i)) (?F ((c # path) ! Suc i))"
  proof -
    fix i assume i: "Suc i < length (c # path)"
    show "inherits st' (?F ((c # path) ! i)) (?F ((c # path) ! Suc i))"
    proof (cases i)
      case 0
      from hd have "path ! 0 = d" by (cases path) auto
      with 0 G40 show ?thesis by simp
    next
      case (Suc j)
      with i I4[of j] show ?thesis by simp
    qed
  qed
  have G5: "\<And>a n. a \<in> ?F ` set (c # path) \<Longrightarrow> flagAt st' a n \<noteq> None \<Longrightarrow>
               \<exists>b\<in>?F ` set (c # path). flagAt st b n \<noteq> None"
  proof -
    fix a n assume a: "a \<in> ?F ` set (c # path)" and h: "flagAt st' a n \<noteq> None"
    show "\<exists>b\<in>?F ` set (c # path). flagAt st b n \<noteq> None"
    proof (cases "a \<in> ?F ` set path")
      case False
      with a have "a = ?F c" by auto
      with h G3 have "flagAt st (?F c) n \<noteq> None" by simp
      then show ?thesis by auto
    next
      case True
      from I5[OF True h] obtain b where b: "b \<in> ?F ` set path" "flagAt st2 b n \<noteq> None"
        by blast
      show ?thesis
      proof (cases "b = ?F d")
        case False
        with b P2 k have "flagAt st b n \<noteq> None" by simp
        with b(1) show ?thesis by auto
      next
        case bd: True
        from P4 b(2) bd consider "flagAt st1 (?F d) n \<noteq> None" | "n \<in> Name ` set (VisitAll f)"
          by blast
        then show ?thesis
        proof cases
          case 1
          with k have "flagAt st (?F d) n \<noteq> None" by simp
          with Fdp show ?thesis by auto
        next
          case 2
          then obtain k' fl where kf: "(k', fl) \<in> set (formal f)" "Name fl = n"
            by (auto simp: VisitAll_set)
          from flagSetOk_entry(1)[OF fok kf(1)] kf(2) have "k' = n" by simp
          with kf(1) have "n \<in> fst ` set (formal f)" by force
          then have "map_of (formal f) n \<noteq> None" by (simp add: map_of_eq_None_iff)
          with f have "flagAt st1 (flagSet cmd) n \<noteq> None"
            by (simp add: flagAt_def formalAt_def)
          with k Fc have "flagAt st (?F c) n \<noteq> None" by simp
          then show ?thesis by auto
        qed
      qed
    qed
  qed
  show ?thesis
    unfolding pathInvariant_def
  proof (intro conjI)
    show "stateOk st'" by (rule I1)
    show "\<forall>a n. a \<notin> ?F ` set (c # path) \<longrightarrow> flagAt st' a n = flagAt st a n"
      using G2 by blast
    show "\<forall>n. flagAt st' (?F (hd (c # path))) n = flagAt st (?F (hd (c # path))) n"
      using G3 by simp
    show "\<forall>i. Suc i < length (c # path) \<longrightarrow>
          inherits st' (?F ((c # path) ! i)) (?F ((c # path) ! Suc i))"
      using G4 by blast
    show "\<forall>a\<in>?F ` set (c # path). \<forall>n. flagAt st' a n \<noteq> None \<longrightarrow>
          (\<exists>b\<in>?F ` set (c # path). flagAt st b n \<noteq> None)"
      using G5 by blast
  qed
qed

lemma resolves_pathInvariant:
  "resolves rt cs c as st path d as' st' \<Longrightarrow> distinct (map (flagSetOf cs) path) \<Longrightarrow>
   stateOk st \<Longrightarrow> pathInvariant cs st path st'"
proof (induction rule: resolves.induct)
  case (stop_empty c cmd as st st1 f)
  from Parse_formalsKept[OF stop_empty.hyps(2)] stop_empty.prems(2)
  show ?case by (rule pathInvariant_single)
next
  case (stop_no_child c cmd as st st1 f t ts)
  from Parse_formalsKept[OF stop_no_child.hyps(2)] stop_no_child.prems(2)
  show ?case by (rule pathInvariant_single)
next
  case (descend c cmd as st st1 f t ts d sub st2 path e as' st')
  note K = Parse_formalsKept[OF descend.hyps(2)]
  from resolves_last[OF descend.hyps(8)] have hd: "path \<noteq> []" "hd path = d" by simp_all
  from descend.prems(1) have dp: "distinct (map (flagSetOf cs) path)" by simp
  have ok1: "stateOk st1" using K descend.prems(2) by (rule formalsKept_stateOk)
  from propagate_flags[OF descend.hyps(7)] ok1 have ok2: "stateOk st2" by blast
  from descend.IH[OF dp ok2] have IH: "pathInvariant cs st2 path st'" .
  from descend.hyps(1) K descend.hyps(3,6,7) hd descend.prems(1,2) IH
  show ?case by (rule pathInvariant_step)
qed

lemma inherits_along:
  assumes "\<forall>i. Suc i < length path \<longrightarrow>
             inherits st (F (path ! i)) (F (path ! Suc i))"
    and "i \<le> j" and "j < length path"
  shows "inherits st (F (path ! i)) (F (path ! j))"
  using assms(2,3)
proof (induction j)
  case 0
  then show ?case by (simp add: inherits_refl)
next
  case (Suc j)
  show ?case
  proof (cases "i = Suc j")
    case True
    then show ?thesis by (simp add: inherits_refl)
  next
    case False
    with Suc.prems have "i \<le> j" "j < length path" by simp_all
    from Suc.IH[OF this] assms(1) Suc.prems(2) show ?thesis
      by (blast intro: inherits_trans)
  qed
qed

lemma resolves_flags_kept:
  "resolves rt cs c as st path d as' st' \<Longrightarrow> flagAt st a n = Some fl \<Longrightarrow>
   flagAt st' a n = Some fl"
proof (induction rule: resolves.induct)
  case (stop_empty c cmd as st st1 f)
  from formalsKept_flagAt[OF Parse_formalsKept[OF stop_empty.hyps(2)], of a n] stop_empty.prems
  show ?case by simp
next
  case (stop_no_child c cmd as st st1 f t ts)
  from formalsKept_flagAt[OF Parse_formalsKept[OF stop_no_child.hyps(2)], of a n]
    stop_no_child.prems
  show ?case by simp
next
  case (descend c cmd as st st1 f t ts d sub st2 path e as' st')
  from formalsKept_flagAt[OF Parse_formalsKept[OF descend.hyps(2)], of a n] descend.prems
  have 1: "flagAt st1 a n = Some fl" by simp
  from propagate_flags[OF descend.hyps(7)] 1 have "flagAt st2 a n = Some fl" by auto
  then show ?case by (rule descend.IH)
qed

lemma cutEq_name:
  assumes "n \<noteq> []" and "CHR ''='' \<notin> set n"
  shows "cutEq (n @ CHR ''='' # val) = (n, True, val)"
proof -
  from assms(1) obtain c n' where n: "n = c # n'" by (cases n) auto
  with assms(2) have "CHR ''='' \<notin> set n'" by simp
  then have t: "takeWhile (\<lambda>x. x \<noteq> CHR ''='') (n' @ CHR ''='' # val) = n'"
    by (induction n') auto
  show ?thesis unfolding n by (simp add: t Let_def)
qed

lemma parseOne_sets:
  assumes f: "deref (flagSets st) fa = Some f"
    and a: "args f = (CHR ''-'' # n @ CHR ''='' # val) # rest"
    and m: "map_of (formal f) n = Some fl"
    and n: "n \<noteq> []" "take 1 n \<noteq> ''-''" "CHR ''='' \<notin> set n"
    and v: "deref (flagValues st) (Value fl) = Some v" and s: "Value_Set v val = Inr v'"
  shows "parseOne rt cs fa st =
         Ok (True, None,
             setFlag fa n fl v' (f\<lparr>args := rest\<rparr>) (putFlagSet fa (f\<lparr>args := rest\<rparr>) st))"
proof -
  from n(1) obtain c n' where nc: "n = c # n'" by (cases n) auto
  with n(2,3) have c: "c \<noteq> CHR ''-''" "c \<noteq> CHR ''=''" by auto
  let ?s = "CHR ''-'' # n @ CHR ''='' # val"
  have l: "\<not> (length ?s < 2 \<or> ?s ! 0 \<noteq> CHR ''-'')" using nc by simp
  have s1: "?s ! 1 = c" using nc by simp
  have d: "drop 1 ?s = n @ CHR ''='' # val" by simp
  have n0: "\<not> (length (n @ CHR ''='' # val) = 0 \<or> (n @ CHR ''='' # val) ! 0 = CHR ''-''
             \<or> (n @ CHR ''='' # val) ! 0 = CHR ''='')"
    using nc c by simp
  note ce = cutEq_name[OF n(1,3), of val]
  show ?thesis
  proof (cases v)
    case (boolValue b)
    with f a m v s l s1 c n0 ce show ?thesis
      unfolding parseOne_def by (simp add: Let_def d del: cutEq.simps)
  next
    case (stringValue x)
    with f a m v s l s1 c n0 ce show ?thesis
      unfolding parseOne_def by (simp add: Let_def d del: cutEq.simps)
  qed
qed

lemma flagAt_deref:
  assumes "flagAt st a n = Some fl"
  obtains g where "deref (flagSets st) a = Some g" and "map_of (formal g) n = Some fl"
  using assms by (cases "deref (flagSets st) a") (simp_all add: flagAt_def formalAt_def)

lemma currentValue_flagAt:
  "flagAt st a n = Some fl \<Longrightarrow>
   currentValue (st\<lparr>flagValues := vs\<rparr>) a n = deref vs (Value fl)"
  by (erule flagAt_deref) (simp add: currentValue_def FlagSet_Lookup_def)

lemma flags_along_path:
  assumes r: "resolves rt cs c as st path d as' st'"
    and dist: "distinct (map (flagSetOf cs) path)" and ok: "stateOk st"
  shows "stateOk st'"
    and "i \<le> j \<Longrightarrow> j < length path \<Longrightarrow>
         inherits st' (flagSetOf cs (path ! i)) (flagSetOf cs (path ! j))"
    and "flagAt st' (flagSetOf cs d) n \<noteq> None \<Longrightarrow>
         \<exists>b\<in>set path. flagAt st (flagSetOf cs b) n \<noteq> None"
proof -
  note I = resolves_pathInvariant[OF r dist ok, unfolded pathInvariant_def]
  from I show "stateOk st'" by blast
  from I have adj: "\<forall>i. Suc i < length path \<longrightarrow>
             inherits st' (flagSetOf cs (path ! i)) (flagSetOf cs (path ! Suc i))" by blast
  show "i \<le> j \<Longrightarrow> j < length path \<Longrightarrow>
         inherits st' (flagSetOf cs (path ! i)) (flagSetOf cs (path ! j))"
    by (rule inherits_along[OF adj])
  from resolves_last[OF r] have "d \<in> set path" by (metis last_in_set)
  moreover from I have "\<forall>a\<in>flagSetOf cs ` set path. \<forall>n. flagAt st' a n \<noteq> None \<longrightarrow>
          (\<exists>b\<in>flagSetOf cs ` set path. flagAt st b n \<noteq> None)" by blast
  ultimately show "flagAt st' (flagSetOf cs d) n \<noteq> None \<Longrightarrow>
         \<exists>b\<in>set path. flagAt st (flagSetOf cs b) n \<noteq> None"
    by blast
qed

lemma flag_settable:
  assumes ok: "stateOk st" and fl: "flagAt st fa n = Some fl"
  obtains g v where "deref (flagSets st) fa = Some g"
    and "deref (flagValues st) (Value fl) = Some v"
    and "\<forall>val v' rest. n \<noteq> [] \<and> Value_Set v val = Inr v' \<longrightarrow>
           parseOne rt cs fa (putFlagSet fa (g\<lparr>args := (CHR ''-'' # n @ CHR ''='' # val) # rest\<rparr>) st)
           = Ok (True, None,
                 setFlag fa n fl v' (g\<lparr>args := rest\<rparr>) (putFlagSet fa (g\<lparr>args := rest\<rparr>) st))"
proof -
  from fl obtain g where g: "deref (flagSets st) fa = Some g"
    and m: "map_of (formal g) n = Some fl" by (rule flagAt_deref)
  from stateOk_deref[OF ok g] have gok: "flagSetOk g (flagValues st)" .
  from m have mem: "(n, fl) \<in> set (formal g)" by (rule map_of_SomeD)
  note e = flagSetOk_entry[OF gok mem]
  from e(4) have v: "deref (flagValues st) (Value fl) = Some (flagValues st ! Value fl)"
    by (simp add: deref_def)
  show thesis
  proof (rule that[OF g v], intro allI impI)
    fix val v' rest
    assume h: "n \<noteq> [] \<and> Value_Set (flagValues st ! Value fl) val = Inr v'"
    let ?tok = "CHR ''-'' # n @ CHR ''='' # val"
    let ?g = "g\<lparr>args := ?tok # rest\<rparr>"
    let ?st = "putFlagSet fa ?g st"
    have 1: "deref (flagSets ?st) fa = Some ?g" using g by (rule deref_putFlagSet_same)
    have 2: "args ?g = ?tok # rest" by simp
    have 3: "map_of (formal ?g) n = Some fl" using m by simp
    have 4: "deref (flagValues ?st) (Value fl) = Some (flagValues st ! Value fl)"
      using v by simp
    from h have 5: "n \<noteq> []" and 6: "Value_Set (flagValues st ! Value fl) val = Inr v'"
      by simp_all
    from parseOne_sets[OF 1 2 3 5 e(2,3) 4 6, of rt cs]
    show "parseOne rt cs fa ?st
           = Ok (True, None,
                 setFlag fa n fl v' (g\<lparr>args := rest\<rparr>) (putFlagSet fa (g\<lparr>args := rest\<rparr>) st))"
      by simp
  qed
qed

lemma ancestor_flags:
  assumes r: "resolves rt cs c as st path d as' st'"
    and dist: "distinct (map (flagSetOf cs) path)" and ok: "stateOk st"
  shows "(\<forall>a n fl. flagAt st a n = Some fl \<longrightarrow> flagAt st' a n = Some fl) \<and>
         (\<forall>i j n fl. i \<le> j \<and> j < length path \<and> flagAt st' (flagSetOf cs (path ! i)) n = Some fl \<longrightarrow>
            (\<exists>fl' g v. flagAt st' (flagSetOf cs (path ! j)) n = Some fl' \<and> Value fl' = Value fl \<and>
               deref (flagSets st') (flagSetOf cs (path ! j)) = Some g \<and>
               deref (flagValues st') (Value fl) = Some v \<and>
               (\<forall>val v' rest. n \<noteq> [] \<and> Value_Set v val = Inr v' \<longrightarrow>
                  parseOne rt cs (flagSetOf cs (path ! j))
                    (putFlagSet (flagSetOf cs (path ! j))
                       (g\<lparr>args := (CHR ''-'' # n @ CHR ''='' # val) # rest\<rparr>) st')
                  = Ok (True, None,
                        setFlag (flagSetOf cs (path ! j)) n fl' v' (g\<lparr>args := rest\<rparr>)
                          (putFlagSet (flagSetOf cs (path ! j)) (g\<lparr>args := rest\<rparr>) st'))))) \<and>
         (\<forall>n. (\<forall>b\<in>set path. flagAt st (flagSetOf cs b) n = None) \<longrightarrow>
              flagAt st' (flagSetOf cs d) n = None)"
proof (intro conjI allI impI)
  fix a n fl assume "flagAt st a n = Some fl"
  with r show "flagAt st' a n = Some fl" by (rule resolves_flags_kept)
next
  fix i j n fl
  assume h: "i \<le> j \<and> j < length path \<and> flagAt st' (flagSetOf cs (path ! i)) n = Some fl"
  note P = flags_along_path[OF r dist ok]
  from h P(2)[of i j] have "inherits st' (flagSetOf cs (path ! i)) (flagSetOf cs (path ! j))"
    by simp
  with h obtain fl' where fl': "flagAt st' (flagSetOf cs (path ! j)) n = Some fl'"
    and V: "Value fl' = Value fl" unfolding inherits_def by blast
  from P(1) fl' obtain g v where g: "deref (flagSets st') (flagSetOf cs (path ! j)) = Some g"
    and v: "deref (flagValues st') (Value fl') = Some v"
    and s: "\<forall>val v' rest. n \<noteq> [] \<and> Value_Set v val = Inr v' \<longrightarrow>
           parseOne rt cs (flagSetOf cs (path ! j))
             (putFlagSet (flagSetOf cs (path ! j))
                (g\<lparr>args := (CHR ''-'' # n @ CHR ''='' # val) # rest\<rparr>) st')
           = Ok (True, None,
                 setFlag (flagSetOf cs (path ! j)) n fl' v' (g\<lparr>args := rest\<rparr>)
                   (putFlagSet (flagSetOf cs (path ! j)) (g\<lparr>args := rest\<rparr>) st'))"
    by (rule flag_settable[where rt = rt and cs = cs])
  from v V have v': "deref (flagValues st') (Value fl) = Some v" by simp
  from fl' V g v' s
  show "\<exists>fl' g v. flagAt st' (flagSetOf cs (path ! j)) n = Some fl' \<and> Value fl' = Value fl \<and>
               deref (flagSets st') (flagSetOf cs (path ! j)) = Some g \<and>
               deref (flagValues st') (Value fl) = Some v \<and>
               (\<forall>val v' rest. n \<noteq> [] \<and> Value_Set v val = Inr v' \<longrightarrow>
                  parseOne rt cs (flagSetOf cs (path ! j))
                    (putFlagSet (flagSetOf cs (path ! j))
                       (g\<lparr>args := (CHR ''-'' # n @ CHR ''='' # val) # rest\<rparr>) st')
                  = Ok (True, None,
                        setFlag (flagSetOf cs (path ! j)) n fl' v' (g\<lparr>args := rest\<rparr>)
                          (putFlagSet (flagSetOf cs (path ! j)) (g\<lparr>args := rest\<rparr>) st')))"
    by blast
next
  fix n assume h: "\<forall>b\<in>set path. flagAt st (flagSetOf cs b) n = None"
  show "flagAt st' (flagSetOf cs d) n = None"
  proof (rule ccontr)
    assume "flagAt st' (flagSetOf cs d) n \<noteq> None"
    from flags_along_path(3)[OF r dist ok this] obtain b where
      "b \<in> set path" "flagAt st (flagSetOf cs b) n \<noteq> None" by (rule bexE)
    with h show False by simp
  qed
qed

lemma shared_value:
  assumes r: "resolves rt cs c as st path d as' st'"
    and dist: "distinct (map (flagSetOf cs) path)" and ok: "stateOk st"
    and i: "i < length path" and j: "j < length path"
    and fi: "flagAt st' (flagSetOf cs (path ! i)) n = Some fl"
    and fj: "flagAt st' (flagSetOf cs (path ! j)) n = Some fl'"
  shows "Value fl' = Value fl \<and>
         (\<forall>vs. currentValue (st'\<lparr>flagValues := vs\<rparr>) (flagSetOf cs (path ! j)) n
               = currentValue (st'\<lparr>flagValues := vs\<rparr>) (flagSetOf cs (path ! i)) n)"
proof -
  note P = flags_along_path[OF r dist ok]
  have V: "Value fl' = Value fl"
  proof (cases "i \<le> j")
    case True
    from P(2)[OF True j] fi fj show ?thesis unfolding inherits_def by fastforce
  next
    case False
    then have "j \<le> i" by simp
    from P(2)[OF this i] fi fj show ?thesis unfolding inherits_def by fastforce
  qed
  with currentValue_flagAt[OF fi] currentValue_flagAt[OF fj] show ?thesis by simp
qed


text \<open>
  The echo program with a second subcommand that declares a flag of its own, called with
  \<open>echo hello\<close>.
\<close>

definition branchesMain ::
  "string list \<Rightarrow> (addr \<times> (unit, string list \<times> string option) program) res" where
  "branchesMain osArgs =
     res_bind (Root osArgs (startup (hd osArgs))) (\<lambda>(root, p).
     res_bind (Flags root (FlagSet_Bool exampleRuntime ''verbose'' False ''Enable verbose output'') p) (\<lambda>(_, p).
     res_bind (SubCommand root ''echo'' p) (\<lambda>(echo, p).
     res_bind (Action echo (Some EchoHandler) p) (\<lambda>(_, p).
     res_bind (Flags echo (FlagSet_String exampleRuntime ''case'' [] ''Case to use (upper, lower)'') p) (\<lambda>(_, p).
     res_bind (SubCommand root ''repeat'' p) (\<lambda>(repeat, p).
     res_bind (Flags repeat (FlagSet_String exampleRuntime ''times'' ''2'' ''Number of repetitions'') p) (\<lambda>(_, p).
     Ok (root, p))))))))"

definition branchesTree :: "(unit, string list \<times> string option) program" where
  "branchesTree = built (branchesMain [''echo''])"

definition branchesResolved :: state where
  "branchesResolved =
     resolvedState exampleRuntime (commands branchesTree) 0 [''echo'', ''hello''] (mem branchesTree)"

definition verboseFlag :: Flag where
  "verboseFlag =
     \<lparr>Name = ''verbose'', Usage = ''Enable verbose output'', Value = 0, DefValue = ''false''\<rparr>"


text \<open>
  C10.  Along the path of the walk, from a state in order and through nodes with flag sets
  of their own: two nodes of the path whose flag sets hold a flag of the same name at the
  end hold the same value object, so that they show the same current value, whatever is
  written to the values afterwards.
\<close>

theorem propagated_flags_share_value:
  assumes "resolves rt cs c as st path d as' st'"
    and "distinct (map (flagSetOf cs) path)" and "stateOk st"
    and "i < length path" and "j < length path"
    and "flagAt st' (flagSetOf cs (path ! i)) n = Some fl"
    and "flagAt st' (flagSetOf cs (path ! j)) n = Some fl'"
  shows "Value fl' = Value fl \<and>
         (\<forall>vs. currentValue (st'\<lparr>flagValues := vs\<rparr>) (flagSetOf cs (path ! j)) n
               = currentValue (st'\<lparr>flagValues := vs\<rparr>) (flagSetOf cs (path ! i)) n)"
  using assms by (rule shared_value)

text \<open>
  The echo program called with \<open>-verbose echo -verbose=false hello\<close>: the root sets its
  flag, which comes down to the subcommand with the value it has by then as its default,
  and the subcommand sets it back.
\<close>

definition echoVerbose :: state where
  "echoVerbose =
     resolvedState exampleRuntime (commands echoTree) 0
       [''-verbose'', ''echo'', ''-verbose=false'', ''hello''] (mem echoTree)"

theorem propagated_flags_share_value_witness:
  "resolves exampleRuntime (commands echoTree) 0
     [''-verbose'', ''echo'', ''-verbose=false'', ''hello''] (mem echoTree)
     [0, 1] 1 [''hello''] echoVerbose
   \<and> distinct (map (flagSetOf (commands echoTree)) [0, 1])
   \<and> stateOk (mem echoTree)
   \<and> (0::nat) < length [0::nat, 1] \<and> (1::nat) < length [0::nat, 1]
   \<and> flagAt echoVerbose (flagSetOf (commands echoTree) ([0, 1] ! 0)) ''verbose''
       = Some \<lparr>Name = ''verbose'', Usage = ''Enable verbose output'', Value = 0,
                DefValue = ''false''\<rparr>
   \<and> flagAt echoVerbose (flagSetOf (commands echoTree) ([0, 1] ! 1)) ''verbose''
       = Some \<lparr>Name = ''verbose'', Usage = ''Enable verbose output'', Value = 0,
                DefValue = ''true''\<rparr>
   \<and> Value \<lparr>Name = ''verbose'', Usage = ''Enable verbose output'', Value = 0,
              DefValue = ''true''\<rparr>
       = Value \<lparr>Name = ''verbose'', Usage = ''Enable verbose output'', Value = 0,
                DefValue = ''false''\<rparr>
   \<and> currentValue (mem echoTree) 0 ''verbose'' = Some (boolValue False)
   \<and> currentValue echoVerbose (flagSetOf (commands echoTree) ([0, 1] ! 1)) ''verbose''
       = Some (boolValue False)
   \<and> currentValue echoVerbose (flagSetOf (commands echoTree) ([0, 1] ! 0)) ''verbose''
       = Some (boolValue False)
   \<and> currentValue (echoVerbose\<lparr>flagValues := [boolValue True, stringValue ''upper'']\<rparr>)
         (flagSetOf (commands echoTree) ([0, 1] ! 1)) ''verbose''
       = Some (boolValue True)
   \<and> currentValue (echoVerbose\<lparr>flagValues := [boolValue True, stringValue ''upper'']\<rparr>)
         (flagSetOf (commands echoTree) ([0, 1] ! 0)) ''verbose''
       = Some (boolValue True)"
proof -
  let ?cs = "commands echoTree"
  have r: "resolves exampleRuntime ?cs 0
     [''-verbose'', ''echo'', ''-verbose=false'', ''hello''] (mem echoTree)
     [0, 1] 1 [''hello''] echoVerbose" by code_simp
  have di: "distinct (map (flagSetOf ?cs) [0, 1])" by code_simp
  have ok: "stateOk (mem echoTree)" by code_simp
  have le: "(0::nat) < length [0::nat, 1]" "(1::nat) < length [0::nat, 1]" by simp_all
  have fi: "flagAt echoVerbose (flagSetOf ?cs ([0, 1] ! 0)) ''verbose''
       = Some \<lparr>Name = ''verbose'', Usage = ''Enable verbose output'', Value = 0,
                DefValue = ''false''\<rparr>" by code_simp
  have fj: "flagAt echoVerbose (flagSetOf ?cs ([0, 1] ! 1)) ''verbose''
       = Some \<lparr>Name = ''verbose'', Usage = ''Enable verbose output'', Value = 0,
                DefValue = ''true''\<rparr>" by code_simp
  have b: "currentValue (mem echoTree) 0 ''verbose'' = Some (boolValue False)" by code_simp
  have c1: "currentValue echoVerbose (flagSetOf ?cs ([0, 1] ! 1)) ''verbose''
       = Some (boolValue False)" by code_simp
  have c2: "currentValue (echoVerbose\<lparr>flagValues := [boolValue True, stringValue ''upper'']\<rparr>)
         (flagSetOf ?cs ([0, 1] ! 1)) ''verbose''
       = Some (boolValue True)" by code_simp
  have id: "echoVerbose\<lparr>flagValues := flagValues echoVerbose\<rparr> = echoVerbose" by simp
  note T = propagated_flags_share_value[OF r di ok le fi fj]
  from T have V: "Value \<lparr>Name = ''verbose'', Usage = ''Enable verbose output'', Value = 0,
              DefValue = ''true''\<rparr>
       = Value \<lparr>Name = ''verbose'', Usage = ''Enable verbose output'', Value = 0,
                DefValue = ''false''\<rparr>" by (rule conjunct1)
  from T[THEN conjunct2, rule_format, of "flagValues echoVerbose"]
  have "currentValue echoVerbose (flagSetOf ?cs ([0, 1] ! 1)) ''verbose''
        = currentValue echoVerbose (flagSetOf ?cs ([0, 1] ! 0)) ''verbose''"
    by (simp only: id)
  with c1 have c0: "currentValue echoVerbose (flagSetOf ?cs ([0, 1] ! 0)) ''verbose''
       = Some (boolValue False)" by (simp only:)
  from T[THEN conjunct2, rule_format, of "[boolValue True, stringValue ''upper'']"] c2
  have c3: "currentValue (echoVerbose\<lparr>flagValues := [boolValue True, stringValue ''upper'']\<rparr>)
         (flagSetOf ?cs ([0, 1] ! 0)) ''verbose''
       = Some (boolValue True)" by (simp only:)
  from r di ok le fi fj V b c1 c0 c2 c3 show ?thesis by (simp only: simp_thms)
qed

end
